theory Spec2Isabelle
  imports Main "HOL-Library.Sublist"
begin

section \<open>The documentation metadata tree\<close>

text \<open>
  The metadata is parsed JSON: a finite tree of reflections. Declaration reflections and
  call signatures are objects of one shape that differ in which fields are present, so a
  single datatype covers both; a field that may be missing is an \<open>option\<close>
  (\<open>None\<close> is JavaScript's \<open>undefined\<close>). Only the fields read by the
  functions below are kept. \<open>id'\<close> and \<open>declaration'\<close> stand for the
  fields \<^verbatim>\<open>id\<close> and \<^verbatim>\<open>declaration\<close>.

  A type expression carries its \<^verbatim>\<open>type\<close> tag (\<open>''reflection''\<close>,
  \<open>''union''\<close>, \<open>''array''\<close>, ...), the inline declaration of a
  reflection type, and its immediate sub-expressions.
\<close>

datatype reflection = Reflection
  (id': int) (name: string) (kindString: "string option")
  (children: "reflection list option")
  (type: "someType option")
  (typeParameter: "reflection list option")
  (typeParameters: "reflection list option")
  (signatures: "reflection list option")
and someType = SomeType
  (type_tag: string) (declaration': "reflection option") (parts: "someType list")

section \<open>Type extractor\<close>

text \<open>
  \<^verbatim>\<open>extractTypes(dec, acc?)\<close> pushes onto one array that every recursive call
  shares, and writes a line to the console for each child of an unhandled kind. Both are
  threaded as state: the array of types and the console output (the kind and the node
  logged). \<open>forEach_child\<close> is the body of \<^verbatim>\<open>dec.children?.forEach\<close>.
  An array is truthy even when empty, so \<^verbatim>\<open>acc || []\<close> is \<open>acc\<close> whenever
  it is passed and \<^verbatim>\<open>if (child.children)\<close> only asks whether the field is there.
\<close>

type_synonym console = "(string option \<times> reflection) list"

fun extractTypes ::
  "reflection \<Rightarrow> reflection list option \<Rightarrow> console \<Rightarrow> reflection list \<times> console"
and forEach_child ::
  "reflection list \<Rightarrow> reflection list \<times> console \<Rightarrow> reflection list \<times> console"
where
  "extractTypes (Reflection i n k cs t tp tps sigs) acc out =
     (let types = (case acc of None \<Rightarrow> [] | Some a \<Rightarrow> a)
      in case cs of None \<Rightarrow> (types, out) | Some l \<Rightarrow> forEach_child l (types, out))"
| "forEach_child [] st = st"
| "forEach_child (child # rest) (types, out) =
     (if kindString child = Some ''Module'' \<or> kindString child = Some ''Function''
      then forEach_child rest (types, out)
      else if kindString child = Some ''Interface'' \<or> kindString child = Some ''Type alias''
      then forEach_child rest (types @ [child], out)
      else (case children child of
              Some _ \<Rightarrow>
                forEach_child rest
                  (extractTypes child (Some types) (out @ [(kindString child, child)]))
            | None \<Rightarrow> forEach_child rest (types, out @ [(kindString child, child)])))"

text \<open>The kinds the extractor skips, the kinds it collects, and every other kind.\<close>

definition ignoredKind :: "reflection \<Rightarrow> bool" where
  "ignoredKind c = (kindString c = Some ''Module'' \<or> kindString c = Some ''Function'')"

definition typeKind :: "reflection \<Rightarrow> bool" where
  "typeKind c = (kindString c = Some ''Interface'' \<or> kindString c = Some ''Type alias'')"

definition wrapperKind :: "reflection \<Rightarrow> bool" where
  "wrapperKind c = (\<not> ignoredKind c \<and> \<not> typeKind c)"

text \<open>All nodes below a node, in document order (parent first, left to right).\<close>

fun descendants :: "reflection \<Rightarrow> reflection list"
and descendants_list :: "reflection list \<Rightarrow> reflection list"
where
  "descendants (Reflection i n k cs t tp tps sigs) =
     (case cs of None \<Rightarrow> [] | Some l \<Rightarrow> descendants_list l)"
| "descendants_list [] = []"
| "descendants_list (c # rest) = c # descendants c @ descendants_list rest"

text \<open>
  The trees of the first property: every Interface or Type alias node lies directly
  under the root or under wrappers of unrecognised kind only, that is, no node of a
  recognised kind has an Interface or a Type alias below it.
\<close>

definition wrappedOnly :: "reflection \<Rightarrow> bool" where
  "wrappedOnly root =
     list_all (\<lambda>x. wrapperKind x \<or> filter typeKind (descendants x) = []) (descendants root)"

text \<open>
  The tree with the subtree of every Module and Function cut off (as far as the
  extractor could see them: below the root and below wrappers).
\<close>

definition cutChildren :: "reflection \<Rightarrow> reflection" where
  "cutChildren c =
     Reflection (id' c) (name c) (kindString c) None (type c)
       (typeParameter c) (typeParameters c) (signatures c)"

fun prune :: "reflection \<Rightarrow> reflection"
and prune_list :: "reflection list \<Rightarrow> reflection list"
where
  "prune (Reflection i n k cs t tp tps sigs) =
     Reflection i n k (case cs of None \<Rightarrow> None | Some l \<Rightarrow> Some (prune_list l)) t tp tps sigs"
| "prune_list [] = []"
| "prune_list (c # rest) =
     (if ignoredKind c then cutChildren c else if typeKind c then c else prune c)
       # prune_list rest"


section \<open>The type extractor on the JavaScript heap\<close>

text \<open>
  Whether a call changes the tree it is given cannot be asked of a function on values:
  the objects must have an identity. Here the heap is the list of the objects allocated
  so far and a reference is a position in it. A declaration object holds its
  \<^verbatim>\<open>kindString\<close> and the reference of its \<^verbatim>\<open>children\<close> array, if it has
  one (the extractor reads no other field); an array holds the references of its
  elements.
\<close>

type_synonym ref = nat

datatype object = Decl (kindOf: "string option") (childrenOf: "ref option") | Array (elems: "ref list")

type_synonym heap = "object list"

definition lookup :: "heap \<Rightarrow> ref \<Rightarrow> object option" where
  "lookup h a = (if a < length h then Some (h ! a) else None)"

type_synonym consoleH = "(string option \<times> ref) list"

text \<open>Reading a reference as a declaration (its kind and its children) or as an array.\<close>

definition declAt :: "heap \<Rightarrow> ref \<Rightarrow> (string option \<times> ref option) option" where
  "declAt h a = (case lookup h a of Some (Decl k cs) \<Rightarrow> Some (k, cs) | _ \<Rightarrow> None)"

definition arrayAt :: "heap \<Rightarrow> ref \<Rightarrow> ref list option" where
  "arrayAt h a = (case lookup h a of Some (Array els) \<Rightarrow> Some els | _ \<Rightarrow> None)"

text \<open>
  \<^verbatim>\<open>extractTypes(dec, acc?)\<close> again, now with the array \<^verbatim>\<open>types\<close> as an
  object of the heap: \<^verbatim>\<open>acc || []\<close> allocates a new array when no accumulator is
  passed, and \<^verbatim>\<open>types.push(child)\<close> overwrites the array object in place. The
  function returns the reference of \<^verbatim>\<open>types\<close>, the heap and the console.
  \<^verbatim>\<open>forEach\<close> runs over the elements the array has when the loop starts; a push
  during the loop could only add elements behind them, which \<^verbatim>\<open>forEach\<close> does not
  visit. A heap may hold a cycle, so the recursion carries a bound on the nesting of the
  calls; the result \<open>None\<close> means that the bound was reached or that a reference did
  not lead to an object of the expected shape.
\<close>

function (sequential) extractTypesH ::
  "nat \<Rightarrow> ref \<Rightarrow> ref option \<Rightarrow> heap \<times> consoleH \<Rightarrow> (ref \<times> heap \<times> consoleH) option"
and forEachH ::
  "nat \<Rightarrow> ref list \<Rightarrow> ref \<Rightarrow> heap \<times> consoleH \<Rightarrow> (heap \<times> consoleH) option"
where
  "extractTypesH 0 dec acc st = None"
| "extractTypesH (Suc n) dec acc (h, out) =
     (let types = (case acc of None \<Rightarrow> length h | Some a \<Rightarrow> a);
          h1 = (case acc of None \<Rightarrow> h @ [Array []] | Some a \<Rightarrow> h)
      in case declAt h1 dec of
           None \<Rightarrow> None
         | Some (k, cs) \<Rightarrow>
             (case cs of
                None \<Rightarrow> Some (types, h1, out)
              | Some ca \<Rightarrow>
                  (case arrayAt h1 ca of
                     None \<Rightarrow> None
                   | Some els \<Rightarrow>
                       (case forEachH n els types (h1, out) of
                          None \<Rightarrow> None
                        | Some (h2, out2) \<Rightarrow> Some (types, h2, out2)))))"
| "forEachH n [] types st = Some st"
| "forEachH n (child # rest) types (h, out) =
     (case declAt h child of
        None \<Rightarrow> None
      | Some (k, cs) \<Rightarrow>
          if k = Some ''Module'' \<or> k = Some ''Function''
          then forEachH n rest types (h, out)
          else if k = Some ''Interface'' \<or> k = Some ''Type alias''
          then (case arrayAt h types of
                  None \<Rightarrow> None
                | Some ts \<Rightarrow> forEachH n rest types (h[types := Array (ts @ [child])], out))
          else (case cs of
                  Some _ \<Rightarrow>
                    (case extractTypesH n child (Some types) (h, out @ [(k, child)]) of
                       None \<Rightarrow> None
                     | Some (r, h', out') \<Rightarrow> forEachH n rest types (h', out'))
                | None \<Rightarrow> forEachH n rest types (h, out @ [(k, child)])))"
  by pat_completeness auto
termination
proof (relation "inv_image (less_than <*lex*> less_than)
        (\<lambda>x. case x of
               Inl (n, dec, acc, st) \<Rightarrow> (n, 0)
             | Inr (n, els, types, st) \<Rightarrow> (n, Suc (length els)))")
  show "wf (inv_image (less_than <*lex*> less_than)
        (\<lambda>x. case x of
               Inl (n, dec, acc, st) \<Rightarrow> (n, 0 :: nat)
             | Inr (n, els, types, st) \<Rightarrow> (n :: nat, Suc (length (els :: ref list)))))"
    by (intro wf_inv_image wf_lex_prod wf_less_than)
qed simp_all

text \<open>
  The heaps that hold parsed metadata: below the reference \<open>a\<close> there is a finite
  tree of declarations, at most \<open>n\<close> levels of children deep.
\<close>

fun treeAt :: "heap \<Rightarrow> nat \<Rightarrow> ref \<Rightarrow> bool" where
  "treeAt h 0 a = (case declAt h a of Some (k, None) \<Rightarrow> True | _ \<Rightarrow> False)"
| "treeAt h (Suc n) a =
     (case declAt h a of
        None \<Rightarrow> False
      | Some (k, cs) \<Rightarrow>
          (case cs of
             None \<Rightarrow> True
           | Some ca \<Rightarrow>
               (case arrayAt h ca of
                  None \<Rightarrow> False
                | Some els \<Rightarrow> list_all (treeAt h n) els)))"

text \<open>
  A heap \<open>g\<close> lies over \<open>h\<close> at \<open>t\<close> when it has the objects of \<open>h\<close>, unchanged
  and at their places, and \<open>t\<close> refers to an object allocated after them.
\<close>

definition over :: "heap \<Rightarrow> heap \<Rightarrow> ref \<Rightarrow> bool" where
  "over h g t = (length h \<le> t \<and> t < length g \<and> take (length h) g = h)"

text \<open>
  A project as a heap, the project being object 0: an interface, a namespace wrapping a
  type alias, a function with a type parameter, and a module.
\<close>

definition sampleHeap :: heap where
  "sampleHeap =
     [Decl (Some ''Project'') (Some 1),
      Array [2, 4, 7, 10],
      Decl (Some ''Interface'') (Some 3),
      Array [],
      Decl (Some ''Namespace'') (Some 5),
      Array [6],
      Decl (Some ''Type alias'') None,
      Decl (Some ''Function'') (Some 8),
      Array [9],
      Decl (Some ''Type parameter'') None,
      Decl (Some ''Module'') None]"

section \<open>Parent-type relationship index\<close>

type_synonym ParentTypesMap = "int \<rightharpoonup> string"

text \<open>
  Modelled from the spec: \<^verbatim>\<open>traverseType(type, cb)\<close> comes from the package
  \<^verbatim>\<open>@date-fns/docs/utils\<close>, which is not among the sources. The spec says that the
  type expression's structure is traversed, looking for reflection sub-expressions. Here
  it yields the expression itself and then every nested sub-expression, parent first and
  left to right; the callback is applied to them in that order.
\<close>

fun traverseType :: "someType \<Rightarrow> someType list" where
  "traverseType (SomeType tag d ps) = SomeType tag d ps # concat (map traverseType ps)"

text \<open>
  \<^verbatim>\<open>type?.typeParameter || type?.typeParameters\<close>: the first field wins whenever it is
  present, since an array is truthy even when it is empty.
\<close>

definition typeParams :: "reflection \<Rightarrow> reflection list option" where
  "typeParams ty = (case typeParameter ty of Some ps \<Rightarrow> Some ps | None \<Rightarrow> typeParameters ty)"

text \<open>
  \<^verbatim>\<open>(...)?.map((ref) => { map[ref.id] = inlineTypeHash(refl, ref) })\<close>.
  \<^verbatim>\<open>inlineTypeHash\<close> lives in \<^verbatim>\<open>~/utils/docs\<close>, which is not among the
  sources; it is a parameter of the model.
\<close>

definition registerParams ::
  "(reflection \<Rightarrow> reflection \<Rightarrow> string) \<Rightarrow> reflection \<Rightarrow> reflection \<Rightarrow>
     ParentTypesMap \<Rightarrow> ParentTypesMap"
where
  "registerParams inlineTypeHash r ty m =
     (case typeParams ty of
        None \<Rightarrow> m
      | Some ps \<Rightarrow> fold (\<lambda>ref m'. m'(id' ref \<mapsto> inlineTypeHash r ref)) ps m)"

text \<open>
  The signatures the callback recurses into at one sub-expression:
  \<^verbatim>\<open>if (ref.type === 'reflection') ref.declaration?.signatures?.forEach(...)\<close>.
\<close>

definition inlineSignatures :: "someType \<Rightarrow> reflection list" where
  "inlineSignatures ref =
     (if type_tag ref = ''reflection''
      then (case declaration' ref of
              None \<Rightarrow> []
            | Some d \<Rightarrow> (case signatures d of None \<Rightarrow> [] | Some sigs \<Rightarrow> sigs))
      else [])"

subsection \<open>Every nested signature is smaller than the node that carries it\<close>

lemma size_traverseType: "ref \<in> set (traverseType t) \<Longrightarrow> size ref \<le> size t"
proof (induction t arbitrary: ref rule: traverseType.induct)
  case (1 tag d ps)
  from 1(2) consider "ref = SomeType tag d ps"
    | p where "p \<in> set ps" "ref \<in> set (traverseType p)"
    by auto
  then show ?case
  proof cases
    case 1
    then show ?thesis by simp
  next
    case 2
    with 1(1) have "size ref \<le> size p" by simp
    moreover have "size p \<le> size_list size ps"
      using 2(1) by (simp add: size_list_estimation')
    ultimately show ?thesis by simp
  qed
qed

lemma size_signatures:
  assumes "signatures d = Some sigs" and "sg \<in> set sigs"
  shows "size sg < size d"
proof (cases d)
  case (Reflection i n k cs t tp tps ss)
  with assms(1) have "ss = Some sigs" by simp
  moreover from assms(2) have "size sg \<le> size_list size sigs"
    by (simp add: size_list_estimation')
  ultimately show ?thesis using Reflection by simp
qed

lemma size_declaration: "declaration' ref = Some d \<Longrightarrow> size d < size ref"
  by (cases ref) simp

lemma size_type: "type ty = Some t \<Longrightarrow> size t < size ty"
  by (cases ty) simp

lemma inlineSignatures_eqs:
  "type_tag ref \<noteq> ''reflection'' \<Longrightarrow> inlineSignatures ref = []"
  "declaration' ref = None \<Longrightarrow> inlineSignatures ref = []"
  "declaration' ref = Some d \<Longrightarrow> signatures d = None \<Longrightarrow> inlineSignatures ref = []"
  "type_tag ref = ''reflection'' \<Longrightarrow> declaration' ref = Some d \<Longrightarrow>
     signatures d = Some sigs \<Longrightarrow> inlineSignatures ref = sigs"
  by (simp_all add: inlineSignatures_def)

lemma inlineSignatures_cases:
  assumes "sg \<in> set (inlineSignatures ref)"
  obtains d sigs where "type_tag ref = ''reflection''" "declaration' ref = Some d"
    "signatures d = Some sigs" "sg \<in> set sigs"
proof (cases "declaration' ref")
  case None
  with assms have False by (simp add: inlineSignatures_eqs)
  then show ?thesis ..
next
  case (Some d)
  show ?thesis
  proof (cases "signatures d")
    case None
    with Some assms have False by (simp add: inlineSignatures_eqs)
    then show ?thesis ..
  next
    case sigs: (Some sigs)
    show ?thesis
    proof (cases "type_tag ref = ''reflection''")
      case True
      with Some sigs assms have "sg \<in> set sigs" by (simp add: inlineSignatures_eqs)
      with True Some sigs show ?thesis by (rule that)
    next
      case False
      with assms have False by (simp add: inlineSignatures_eqs)
      then show ?thesis ..
    qed
  qed
qed

lemma size_nested_signature:
  assumes "type ty = Some t" "ref \<in> set (traverseType t)" "sg \<in> set (inlineSignatures ref)"
  shows "size sg < size ty"
proof -
  from assms(3) obtain d sigs where
    d: "declaration' ref = Some d" and s: "signatures d = Some sigs" and m: "sg \<in> set sigs"
    by (rule inlineSignatures_cases)
  from s m have "size sg < size d" by (rule size_signatures)
  also from d have "size d < size ref" by (rule size_declaration)
  also have "size ref \<le> size t" using assms(2) by (rule size_traverseType)
  also have "size t < size ty" using assms(1) by (rule size_type)
  finally show ?thesis .
qed

lemma fold_partial_cong [fundef_cong]:
  "xs = ys \<Longrightarrow> (\<And>x. x \<in> set xs \<Longrightarrow> f x = g x) \<Longrightarrow> fold f xs = fold g ys"
proof -
  assume "xs = ys" and "\<And>x. x \<in> set xs \<Longrightarrow> f x = g x"
  then have "\<And>a. fold f xs a = fold g ys a"
    by (intro fold_cong) auto
  then show ?thesis by (rule ext)
qed

subsection \<open>The map builder\<close>

text \<open>
  \<^verbatim>\<open>buildParentTypesMap(refl, type = refl, accMap?)\<close>. The second parameter
  defaults to the first whenever it is \<^verbatim>\<open>undefined\<close>; \<^verbatim>\<open>accMap || {}\<close> is
  \<open>accMap\<close> whenever it is passed, an object being truthy. The object that all the
  recursive calls mutate is threaded through the two loops. \<open>refl'\<close> is the
  parameter \<^verbatim>\<open>refl\<close>. The recursion is on a parsed JSON tree and ends because each
  signature is a proper part of the node whose type carries it.
\<close>

function buildParentTypesMap ::
  "(reflection \<Rightarrow> reflection \<Rightarrow> string) \<Rightarrow> reflection option \<Rightarrow> reflection option \<Rightarrow>
     ParentTypesMap option \<Rightarrow> ParentTypesMap"
where
  "buildParentTypesMap inlineTypeHash refl' typeArg accMap =
     (let type' = (case typeArg of None \<Rightarrow> refl' | Some s \<Rightarrow> Some s);
          map0 = (case accMap of None \<Rightarrow> Map.empty | Some m \<Rightarrow> m);
          map1 = (case refl' of
                    None \<Rightarrow> map0
                  | Some r \<Rightarrow>
                      (case type' of
                         None \<Rightarrow> map0
                       | Some ty \<Rightarrow> registerParams inlineTypeHash r ty map0))
      in case type' of
           None \<Rightarrow> map1
         | Some ty \<Rightarrow>
             (case type ty of
                None \<Rightarrow> map1
              | Some t \<Rightarrow>
                  fold (\<lambda>ref m.
                          fold (\<lambda>signature m'.
                                  buildParentTypesMap inlineTypeHash refl' (Some signature) (Some m'))
                            (inlineSignatures ref) m)
                    (traverseType t) map1))"
  by pat_completeness auto
termination
proof (relation "measure (\<lambda>(h, r, ta, acc).
    case ta of None \<Rightarrow> (case r of None \<Rightarrow> 0 | Some x \<Rightarrow> size x) | Some s \<Rightarrow> size s)")
  show "wf (measure (\<lambda>(h, r, ta, acc).
    case ta of None \<Rightarrow> (case r of None \<Rightarrow> 0 | Some x \<Rightarrow> size x) | Some s \<Rightarrow> size s))"
    by simp
next
  fix inlineTypeHash :: "reflection \<Rightarrow> reflection \<Rightarrow> string"
    and refl' typeArg :: "reflection option" and accMap :: "ParentTypesMap option"
    and x x2 x2a xc xd and xa xb xe :: ParentTypesMap
  assume "x = (case typeArg of None \<Rightarrow> refl' | Some s \<Rightarrow> Some s)" "x = Some x2"
    "type x2 = Some x2a" "xc \<in> set (traverseType x2a)" "xd \<in> set (inlineSignatures xc)"
  then have "size xd < size x2"
    and "(case typeArg of None \<Rightarrow> refl' | Some s \<Rightarrow> Some s) = Some x2"
    by (simp_all add: size_nested_signature)
  then show "((inlineTypeHash, refl', Some xd, Some xe), inlineTypeHash, refl', typeArg, accMap)
    \<in> measure (\<lambda>(h, r, ta, acc).
    case ta of None \<Rightarrow> (case r of None \<Rightarrow> 0 | Some x \<Rightarrow> size x) | Some s \<Rightarrow> size s)"
    by (cases typeArg; cases refl') simp_all
qed

declare buildParentTypesMap.simps [simp del]

subsection \<open>What the walk reaches\<close>

text \<open>
  A description of the walk that does not mention the map: the sub-expressions of a type
  expression, the call signatures of the reflection types inside a node's type, and the
  signatures nested at any depth below a node.
\<close>

inductive subExpr :: "someType \<Rightarrow> someType \<Rightarrow> bool" where
  here: "subExpr t t"
| inside: "p \<in> set (parts t) \<Longrightarrow> subExpr ref p \<Longrightarrow> subExpr ref t"

inductive inlineSig :: "reflection \<Rightarrow> reflection \<Rightarrow> bool" where
  "type node = Some t \<Longrightarrow> subExpr ref t \<Longrightarrow> type_tag ref = ''reflection'' \<Longrightarrow>
   declaration' ref = Some d \<Longrightarrow> signatures d = Some sigs \<Longrightarrow> sg \<in> set sigs \<Longrightarrow>
   inlineSig node sg"

inductive nestedSig :: "reflection \<Rightarrow> reflection \<Rightarrow> bool" where
  direct: "inlineSig node sg \<Longrightarrow> nestedSig node sg"
| deeper: "inlineSig node sg \<Longrightarrow> nestedSig sg sg' \<Longrightarrow> nestedSig node sg'"

code_pred subExpr .
code_pred inlineSig .
code_pred nestedSig .

text \<open>
  The same as a list, in the order of the calls: the node itself, then the nodes visited
  below each signature found in its type.
\<close>

function visits :: "reflection \<Rightarrow> reflection list" where
  "visits ty =
     ty # (case type ty of
             None \<Rightarrow> []
           | Some t \<Rightarrow>
               concat (map (\<lambda>ref. concat (map visits (inlineSignatures ref))) (traverseType t)))"
  by pat_completeness auto
termination
proof (relation "measure size")
  show "wf (measure (size :: reflection \<Rightarrow> nat))" by simp
next
  fix ty :: reflection and t ref sg
  assume "type ty = Some t" "ref \<in> set (traverseType t)" "sg \<in> set (inlineSignatures ref)"
  then show "(sg, ty) \<in> measure size" by (simp add: size_nested_signature)
qed

declare visits.simps [simp del]

definition paramsOf :: "reflection \<Rightarrow> reflection list" where
  "paramsOf node = (case typeParams node of None \<Rightarrow> [] | Some ps \<Rightarrow> ps)"

text \<open>All the type parameters met on the walk from a focal node, in the order met.\<close>

definition registered :: "reflection \<Rightarrow> reflection list" where
  "registered focal = concat (map paramsOf (visits focal))"


subsection \<open>The map builder on a bounded call stack\<close>

text \<open>
  The builder recurses on the JavaScript call stack and nothing in it bounds the depth.
  Here \<open>frames\<close> is the number of nested activations of
  \<^verbatim>\<open>buildParentTypesMap\<close> the stack still has room for (the frames of
  \<^verbatim>\<open>traverseType\<close> and of the callbacks between two activations are counted with
  the activation they lead to). Entering the function with no room left throws a
  \<^verbatim>\<open>RangeError\<close>; the source catches nothing, so the error ends both loops and
  every enclosing call.
\<close>

datatype stack_error = RangeError

fun buildParentTypesMapS ::
  "nat \<Rightarrow> (reflection \<Rightarrow> reflection \<Rightarrow> string) \<Rightarrow> reflection option \<Rightarrow> reflection option \<Rightarrow>
     ParentTypesMap option \<Rightarrow> stack_error + ParentTypesMap"
where
  "buildParentTypesMapS 0 inlineTypeHash refl' typeArg accMap = Inl RangeError"
| "buildParentTypesMapS (Suc frames) inlineTypeHash refl' typeArg accMap =
     (let type' = (case typeArg of None \<Rightarrow> refl' | Some s \<Rightarrow> Some s);
          map0 = (case accMap of None \<Rightarrow> Map.empty | Some m \<Rightarrow> m);
          map1 = (case refl' of
                    None \<Rightarrow> map0
                  | Some r \<Rightarrow>
                      (case type' of
                         None \<Rightarrow> map0
                       | Some ty \<Rightarrow> registerParams inlineTypeHash r ty map0))
      in case type' of
           None \<Rightarrow> Inr map1
         | Some ty \<Rightarrow>
             (case type ty of
                None \<Rightarrow> Inr map1
              | Some t \<Rightarrow>
                  fold (\<lambda>ref res.
                          fold (\<lambda>signature res'.
                                  case res' of
                                    Inl e \<Rightarrow> Inl e
                                  | Inr m' \<Rightarrow>
                                      buildParentTypesMapS frames inlineTypeHash refl'
                                        (Some signature) (Some m'))
                            (inlineSignatures ref) res)
                    (traverseType t) (Inr map1)))"

section \<open>Search filter\<close>

text \<open>
  A navigation item of the modal. \<open>item_type\<close> is its field \<^verbatim>\<open>type\<close>; the
  summary and the description may be \<^verbatim>\<open>undefined\<close>.
\<close>

record TypeItem =
  item_type :: reflection
  summary :: "string option"
  description :: "string option"

text \<open>
  \<^verbatim>\<open>String.prototype.includes\<close>, here \<open>includes'\<close>: the argument occurs
  somewhere in the string.
\<close>

fun includes' :: "string \<Rightarrow> string \<Rightarrow> bool" where
  "includes' [] q = (q = [])"
| "includes' (c # s) q = (prefix q (c # s) \<or> includes' s q)"

text \<open>
  \<^verbatim>\<open>filteredNav\<close>. The built-in \<^verbatim>\<open>toLowerCase\<close> is a parameter; the empty
  query is falsy, and \<^verbatim>\<open>item.summary?.toLowerCase().includes(...)\<close> is
  \<^verbatim>\<open>undefined\<close>, hence falsy, when the field is missing.
\<close>

definition filteredNav :: "(string \<Rightarrow> string) \<Rightarrow> string \<Rightarrow> TypeItem list \<Rightarrow> TypeItem list" where
  "filteredNav toLowerCase query navItems =
     (if query \<noteq> []
      then filter
             (\<lambda>item.
                includes' (toLowerCase (name (item_type item))) (toLowerCase query) \<or>
                (case summary item of
                   None \<Rightarrow> False
                 | Some s \<Rightarrow> includes' (toLowerCase s) (toLowerCase query)) \<or>
                (case description item of
                   None \<Rightarrow> False
                 | Some d \<Rightarrow> includes' (toLowerCase d) (toLowerCase query)))
             navItems
      else navItems)"

text \<open>
  The property in the words of the specification: a string contains the query as a
  case-insensitive substring when, both lowered, the query lies between some prefix and
  some suffix of it; an item matches through its name, or through its summary or its
  description when it has one.
\<close>

definition containsIgnoringCase :: "(string \<Rightarrow> string) \<Rightarrow> string \<Rightarrow> string \<Rightarrow> bool" where
  "containsIgnoringCase toLowerCase s q =
     (\<exists>before after. toLowerCase s = before @ toLowerCase q @ after)"

definition matchesQuery :: "(string \<Rightarrow> string) \<Rightarrow> string \<Rightarrow> TypeItem \<Rightarrow> bool" where
  "matchesQuery toLowerCase q item =
     (containsIgnoringCase toLowerCase (name (item_type item)) q \<or>
      (\<exists>s. summary item = Some s \<and> containsIgnoringCase toLowerCase s q) \<or>
      (\<exists>d. description item = Some d \<and> containsIgnoringCase toLowerCase d q))"

section \<open>Usage tab selector\<close>

definition LOCALSTORAGE_KEY :: string where
  "LOCALSTORAGE_KEY = ''usageSource''"

definition DEFAULT_SOURCE :: string where
  "DEFAULT_SOURCE = ''commonjs''"

text \<open>
  An entry of the \<^verbatim>\<open>usage\<close> prop with the fields the component reads
  (\<open>text_of\<close> is its field \<^verbatim>\<open>text\<close>), the prop itself (an object keyed by
  tab name), and the browser's storage.
\<close>

record usageItem =
  title :: string
  code :: string
  text_of :: "string option"

type_synonym FnUsage = "string \<rightharpoonup> usageItem"

type_synonym localStorage = "string \<rightharpoonup> string"

text \<open>
  The mutable state the component touches: its own \<^verbatim>\<open>source\<close> state and
  \<^verbatim>\<open>window.localStorage\<close>.
\<close>

record world =
  source :: string
  storage :: localStorage

text \<open>\<^verbatim>\<open>useState(DEFAULT_SOURCE)\<close> on a page whose storage is \<open>ls\<close>.\<close>

definition initial :: "localStorage \<Rightarrow> world" where
  "initial ls = \<lparr>source = DEFAULT_SOURCE, storage = ls\<rparr>"

text \<open>
  The effect that runs once after the first render. \<^verbatim>\<open>getItem\<close> gives
  \<^verbatim>\<open>null\<close> for a missing key, and the test \<^verbatim>\<open>if (localStorageSource)\<close>
  is false for \<^verbatim>\<open>null\<close> and for the empty string alike.
\<close>

definition mountEffect :: "world \<Rightarrow> world" where
  "mountEffect w =
     (case storage w LOCALSTORAGE_KEY of
        None \<Rightarrow> w\<lparr>storage := (storage w)(LOCALSTORAGE_KEY \<mapsto> source w)\<rparr>
      | Some localStorageSource \<Rightarrow>
          if localStorageSource \<noteq> []
          then w\<lparr>source := localStorageSource\<rparr>
          else w\<lparr>storage := (storage w)(LOCALSTORAGE_KEY \<mapsto> source w)\<rparr>)"

text \<open>The click handler of a tab.\<close>

definition onClick :: "string \<Rightarrow> world \<Rightarrow> world" where
  "onClick usageTab w =
     w\<lparr>source := usageTab, storage := (storage w)(LOCALSTORAGE_KEY \<mapsto> usageTab)\<rparr>"

text \<open>
  \<^verbatim>\<open>usageTabs.includes(source) ? source : usageTabs[0]\<close>; the first element of an
  empty array is \<^verbatim>\<open>undefined\<close>, here \<open>None\<close>.
\<close>

definition selectedTab :: "string list \<Rightarrow> string \<Rightarrow> string option" where
  "selectedTab usageTabs src =
     (if src \<in> set usageTabs then Some src
      else (case usageTabs of [] \<Rightarrow> None | t # _ \<Rightarrow> Some t))"

text \<open>
  \<^verbatim>\<open>usage[selectedTab]\<close>: a property lookup; the key \<^verbatim>\<open>undefined\<close> is
  looked up as the string \<^verbatim>\<open>"undefined"\<close>.
\<close>

definition selectedUsage :: "FnUsage \<Rightarrow> string option \<Rightarrow> usageItem option" where
  "selectedUsage usage tab = usage (case tab of None \<Rightarrow> ''undefined'' | Some t \<Rightarrow> t)"

text \<open>
  What a render produces: the tab links (tab, title, whether it is the current one; a tab
  with no entry in \<^verbatim>\<open>usage\<close> gives no link) and the content shown. Reading
  \<^verbatim>\<open>selectedUsage.code\<close> of a missing entry throws a \<^verbatim>\<open>TypeError\<close>.
\<close>

datatype js_error = TypeError

record view =
  options :: "(string \<times> string \<times> bool) list"
  content_code :: string
  content_text :: "string option"

definition render :: "string list \<Rightarrow> FnUsage \<Rightarrow> string \<Rightarrow> js_error + view" where
  "render usageTabs usage src =
     (let tab = selectedTab usageTabs src;
          links = List.map_filter
                    (\<lambda>usageTab.
                       case usage usageTab of
                         None \<Rightarrow> None
                       | Some usageItem \<Rightarrow> Some (usageTab, title usageItem, tab = Some usageTab))
                    usageTabs
      in case selectedUsage usage tab of
           None \<Rightarrow> Inl TypeError
         | Some u \<Rightarrow> Inr \<lparr>options = links, content_code = code u, content_text = text_of u\<rparr>)"

text \<open>The tab shown once the component has been mounted on a page with storage \<open>ls\<close>.\<close>

definition displayed :: "string list \<Rightarrow> localStorage \<Rightarrow> string option" where
  "displayed usageTabs ls = selectedTab usageTabs (source (mountEffect (initial ls)))"

section \<open>Sample data\<close>

text \<open>A declaration with a kind and, possibly, children; nothing else.\<close>

definition decl :: "int \<Rightarrow> string \<Rightarrow> string \<Rightarrow> reflection list option \<Rightarrow> reflection" where
  "decl i n k cs = Reflection i n (Some k) cs None None None None"

text \<open>
  A project with an interface, a namespace (a kind the extractor does not know) wrapping
  a type alias, a function and a module.
\<close>

definition sampleDoc :: reflection where
  "sampleDoc =
     decl 0 ''date-fns'' ''Project''
       (Some [decl 1 ''Interval'' ''Interface'' (Some [decl 2 ''start'' ''Property'' None]),
              decl 3 ''internal'' ''Namespace'' (Some [decl 4 ''Duration'' ''Type alias'' None]),
              decl 5 ''format'' ''Function'' (Some [decl 6 ''T'' ''Type parameter'' None]),
              decl 7 ''locale'' ''Module'' None])"

text \<open>
  Modelled from the spec: \<^verbatim>\<open>inlineTypeHash\<close> is in \<^verbatim>\<open>~/utils/docs\<close>, not
  among the sources. The spec says the fragment is computed from the names and ids of the
  focal type and of the parameter and leaves the format to the router. This instance,
  used in the examples only, joins the two names.
\<close>

definition sampleHash :: "reflection \<Rightarrow> reflection \<Rightarrow> string" where
  "sampleHash focal ref = name focal @ ''/'' @ name ref"

definition typeParam :: "int \<Rightarrow> string \<Rightarrow> reflection" where
  "typeParam i n = decl i n ''Type parameter'' None"

text \<open>A call signature, given its type parameters (in the field \<^verbatim>\<open>typeParameter\<close>)
  and its return type.\<close>

definition callSignature :: "int \<Rightarrow> reflection list option \<Rightarrow> someType option \<Rightarrow> reflection" where
  "callSignature i tps t = Reflection i ''__type'' (Some ''Call signature'') None t tps None None"

text \<open>The type expression of an inline function type with the given call signatures.\<close>

definition functionType :: "reflection list \<Rightarrow> someType" where
  "functionType sigs =
     SomeType ''reflection''
       (Some (Reflection 0 ''__type'' (Some ''Type literal'') None None None None (Some sigs))) []"

text \<open>
  \<^verbatim>\<open>type Mapper<T> = Array<<Q>(x: Q) => T>\<close>: an alias with its own parameter
  \<open>T\<close> whose type holds an inline function type with the parameter \<open>Q\<close>.
\<close>

definition sampleAlias :: reflection where
  "sampleAlias =
     Reflection 10 ''Mapper'' (Some ''Type alias'') None
       (Some (SomeType ''array'' None
                [functionType [callSignature 12 (Some [typeParam 13 ''Q'']) None]]))
       None (Some [typeParam 11 ''T'']) None"

text \<open>
  A node that carries parameters under both field names, and one whose
  \<^verbatim>\<open>typeParameter\<close> is an empty array while \<^verbatim>\<open>typeParameters\<close> holds a
  parameter.
\<close>

definition bothFields :: reflection where
  "bothFields =
     Reflection 20 ''Both'' (Some ''Type alias'') None None
       (Some [typeParam 21 ''A'']) (Some [typeParam 22 ''B'']) None"

definition emptyFirstField :: reflection where
  "emptyFirstField =
     Reflection 30 ''EmptyFirst'' (Some ''Type alias'') None None
       (Some []) (Some [typeParam 32 ''B'']) None"

text \<open>
  A signature that declares \<open>q\<close> below \<open>n\<close> further signatures, each the return
  type of the one before, and an alias whose type is that chain: \<open>q\<close> is declared
  \<open>n + 1\<close> calls below the alias.
\<close>

fun nest :: "nat \<Rightarrow> reflection \<Rightarrow> reflection" where
  "nest 0 q = callSignature 0 (Some [q]) None"
| "nest (Suc n) q = callSignature (int (Suc n)) None (Some (functionType [nest n q]))"

definition deepAlias :: "nat \<Rightarrow> reflection \<Rightarrow> reflection" where
  "deepAlias n q =
     Reflection 1000 ''Deep'' (Some ''Type alias'') None
       (Some (functionType [nest n q])) None None None"

text \<open>Navigation items and an ASCII lower-casing for the examples.\<close>

definition asciiLower :: "string \<Rightarrow> string" where
  "asciiLower s =
     map (\<lambda>c. let n = (of_char c :: nat)
               in if 65 \<le> n \<and> n \<le> 90 then char_of (n + 32) else c) s"

definition sampleItems :: "TypeItem list" where
  "sampleItems =
     [\<lparr>item_type = decl 1 ''Interval'' ''Interface'' None,
        summary = Some ''A time span'', description = None\<rparr>,
      \<lparr>item_type = decl 4 ''Duration'' ''Type alias'' None,
        summary = None, description = Some ''Years, months, days''\<rparr>,
      \<lparr>item_type = decl 8 ''Locale'' ''Interface'' None,
        summary = None, description = None\<rparr>]"

section \<open>Properties of the type extractor\<close>

subsection \<open>The accumulators only grow\<close>

lemma forEach_child_acc_if:
  assumes "\<And>c acc out. c \<in> set cs \<Longrightarrow>
     extractTypes c acc out =
       ((case acc of None \<Rightarrow> [] | Some a \<Rightarrow> a) @ fst (extractTypes c None []),
        out @ snd (extractTypes c None []))"
  shows "forEach_child cs (ts, out) =
     (ts @ fst (forEach_child cs ([], [])), out @ snd (forEach_child cs ([], [])))"
  using assms
proof (induction cs arbitrary: ts out)
  case Nil
  show ?case by simp
next
  case (Cons c rest)
  define A where "A = fst (forEach_child rest ([], []))"
  define B where "B = snd (forEach_child rest ([], []))"
  define C where "C = fst (extractTypes c None [])"
  define D where "D = snd (extractTypes c None [])"
  have ih: "\<And>ts out. forEach_child rest (ts, out) = (ts @ A, out @ B)"
    unfolding A_def B_def by (rule Cons.IH, rule Cons.prems) simp
  have ihc: "\<And>acc out. extractTypes c acc out =
      ((case acc of None \<Rightarrow> [] | Some a \<Rightarrow> a) @ C, out @ D)"
    unfolding C_def D_def by (rule Cons.prems) simp
  show ?case by (simp add: ih ihc split: option.split)
qed

lemma extractTypes_acc_aux:
  "\<forall>acc out. extractTypes dec acc out =
     ((case acc of None \<Rightarrow> [] | Some a \<Rightarrow> a) @ fst (extractTypes dec None []),
      out @ snd (extractTypes dec None []))"
  and "(ty :: someType) = ty"
proof (induction dec and ty)
  case (Reflection i n k cs t tp tps sigs)
  show ?case
  proof (cases cs)
    case None
    then show ?thesis by (simp split: option.split)
  next
    case (Some l)
    have "\<And>c. c \<in> set l \<Longrightarrow> \<forall>acc out. extractTypes c acc out =
       ((case acc of None \<Rightarrow> [] | Some a \<Rightarrow> a) @ fst (extractTypes c None []),
        out @ snd (extractTypes c None []))"
      by (rule Reflection(1)[of l]) (simp_all add: Some)
    then have "\<And>c acc out. c \<in> set l \<Longrightarrow> extractTypes c acc out =
       ((case acc of None \<Rightarrow> [] | Some a \<Rightarrow> a) @ fst (extractTypes c None []),
        out @ snd (extractTypes c None []))"
      by blast
    from forEach_child_acc_if[OF this] have step:
      "\<And>ts out. forEach_child l (ts, out) =
         (ts @ fst (forEach_child l ([], [])), out @ snd (forEach_child l ([], [])))" .
    show ?thesis
    proof (intro allI)
      fix acc out
      show "extractTypes (Reflection i n k cs t tp tps sigs) acc out =
        ((case acc of None \<Rightarrow> [] | Some a \<Rightarrow> a) @
           fst (extractTypes (Reflection i n k cs t tp tps sigs) None []),
         out @ snd (extractTypes (Reflection i n k cs t tp tps sigs) None []))"
        using step[of "case acc of None \<Rightarrow> [] | Some a \<Rightarrow> a" out] by (simp add: Some)
    qed
  qed
qed simp

lemma extractTypes_acc:
  "extractTypes dec acc out =
     ((case acc of None \<Rightarrow> [] | Some a \<Rightarrow> a) @ fst (extractTypes dec None []),
      out @ snd (extractTypes dec None []))"
  using extractTypes_acc_aux(1) by blast

lemma forEach_child_acc:
  "forEach_child cs (ts, out) =
     (ts @ fst (forEach_child cs ([], [])), out @ snd (forEach_child cs ([], [])))"
  by (rule forEach_child_acc_if) (rule extractTypes_acc)

lemma forEach_child_fst:
  "fst (forEach_child cs st) = fst st @ fst (forEach_child cs ([], []))"
proof (cases st)
  case (Pair ts out)
  have "forEach_child cs (ts, out) =
     (ts @ fst (forEach_child cs ([], [])), out @ snd (forEach_child cs ([], [])))"
    by (rule forEach_child_acc)
  then have "fst (forEach_child cs (ts, out)) = ts @ fst (forEach_child cs ([], []))"
    by (simp only: fst_conv)
  with Pair show ?thesis by (simp only: fst_conv)
qed

lemma extractTypes_fst:
  "fst (extractTypes dec acc out) =
     (case acc of None \<Rightarrow> [] | Some a \<Rightarrow> a) @ fst (extractTypes dec None [])"
proof -
  have "extractTypes dec acc out =
     ((case acc of None \<Rightarrow> [] | Some a \<Rightarrow> a) @ fst (extractTypes dec None []),
      out @ snd (extractTypes dec None []))"
    by (rule extractTypes_acc)
  then show ?thesis by (simp only: fst_conv)
qed

subsection \<open>What is collected from a list of children\<close>

lemma extractTypes_children:
  "fst (extractTypes d acc out) =
     (case acc of None \<Rightarrow> [] | Some a \<Rightarrow> a) @
     (case children d of None \<Rightarrow> [] | Some l \<Rightarrow> fst (forEach_child l ([], [])))"
proof (cases d)
  case (Reflection i n k cs t tp tps sigs)
  show ?thesis
  proof (cases cs)
    case None
    with Reflection show ?thesis by simp
  next
    case (Some l)
    with Reflection show ?thesis
      using forEach_child_fst[of l "(case acc of None \<Rightarrow> [] | Some a \<Rightarrow> a, out)"]
      by simp
  qed
qed

lemma extracted_Cons:
  "fst (forEach_child (c # rest) ([], [])) =
     (if ignoredKind c then [] else if typeKind c then [c] else fst (extractTypes c None []))
       @ fst (forEach_child rest ([], []))"
proof -
  define A where "A = fst (forEach_child rest ([], []))"
  define C where "C = fst (extractTypes c None [])"
  have r: "\<And>st. fst (forEach_child rest st) = fst st @ A"
    unfolding A_def by (rule forEach_child_fst)
  have e: "\<And>ts out. fst (extractTypes c (Some ts) out) = ts @ C"
    unfolding C_def by (subst extractTypes_fst) simp
  have n: "children c = None \<Longrightarrow> C = []"
    unfolding C_def by (simp add: extractTypes_children)
  have "fst (forEach_child (c # rest) ([], [])) =
     (if ignoredKind c then [] else if typeKind c then [c] else C) @ A"
    by (simp add: ignoredKind_def typeKind_def r e n split: option.split)
  then show ?thesis by (simp only: A_def C_def)
qed

lemma kinds_disjoint: "ignoredKind c \<Longrightarrow> \<not> typeKind c"
  by (auto simp: ignoredKind_def typeKind_def)

lemma extract_wrapped_aux:
  "list_all (\<lambda>x. wrapperKind x \<or> filter typeKind (descendants x) = []) (descendants d) \<longrightarrow>
     fst (extractTypes d None []) = filter typeKind (descendants d)"
  "list_all (\<lambda>x. wrapperKind x \<or> filter typeKind (descendants x) = []) (descendants_list cs) \<longrightarrow>
     fst (forEach_child cs ([], [])) = filter typeKind (descendants_list cs)"
proof (induction d and cs rule: descendants_descendants_list.induct)
  case (1 i n k cs t tp tps sigs)
  then show ?case
    by (cases cs) (simp_all add: extractTypes_children)
next
  case 2
  show ?case by simp
next
  case (3 c rest)
  show ?case
  proof (intro impI)
    assume a: "list_all (\<lambda>x. wrapperKind x \<or> filter typeKind (descendants x) = [])
        (descendants_list (c # rest))"
    then have g: "wrapperKind c \<or> filter typeKind (descendants c) = []"
      and hc: "fst (extractTypes c None []) = filter typeKind (descendants c)"
      and hr: "fst (forEach_child rest ([], [])) = filter typeKind (descendants_list rest)"
      using 3 by simp_all
    show "fst (forEach_child (c # rest) ([], [])) = filter typeKind (descendants_list (c # rest))"
      using g kinds_disjoint[of c]
      by (auto simp: extracted_Cons hc hr wrapperKind_def simp del: forEach_child.simps(2))
  qed
qed

lemma kindString_prune [simp]: "kindString (prune c) = kindString c"
  by (cases c) simp

lemma children_prune [simp]:
  "children (prune c) = (case children c of None \<Rightarrow> None | Some l \<Rightarrow> Some (prune_list l))"
  by (cases c) simp

lemma extract_prune_aux:
  "fst (extractTypes (prune d) None []) = fst (extractTypes d None [])"
  "fst (forEach_child (prune_list cs) ([], [])) = fst (forEach_child cs ([], []))"
proof (induction d and cs rule: prune_prune_list.induct)
  case (1 i n k cs t tp tps sigs)
  then show ?case
    by (cases cs) (simp_all add: extractTypes_children)
next
  case 2
  show ?case by simp
next
  case (3 c rest)
  then show ?case
    by (simp add: extracted_Cons ignoredKind_def typeKind_def cutChildren_def
        del: forEach_child.simps(2))
qed

lemma extracted_typeKind_aux:
  "list_all typeKind (fst (extractTypes d None []))"
  "list_all typeKind (fst (forEach_child cs ([], [])))"
proof (induction d and cs rule: descendants_descendants_list.induct)
  case (1 i n k cs t tp tps sigs)
  then show ?case
    by (cases cs) (simp_all add: extractTypes_children)
next
  case 2
  show ?case by simp
next
  case (3 c rest)
  then show ?case
    by (simp add: extracted_Cons del: forEach_child.simps(2))
qed

lemma extractTypes_top: "fst (extractTypes root None out) = fst (extractTypes root None [])"
  by (subst extractTypes_fst) simp

subsection \<open>What is written to the console\<close>

lemma forEach_child_snd:
  "snd (forEach_child cs st) = snd st @ snd (forEach_child cs ([], []))"
proof (cases st)
  case (Pair ts out)
  have "forEach_child cs (ts, out) =
     (ts @ fst (forEach_child cs ([], [])), out @ snd (forEach_child cs ([], [])))"
    by (rule forEach_child_acc)
  then have "snd (forEach_child cs (ts, out)) = out @ snd (forEach_child cs ([], []))"
    by (simp only: snd_conv)
  with Pair show ?thesis by (simp only: snd_conv)
qed

lemma extractTypes_snd:
  "snd (extractTypes dec acc out) = out @ snd (extractTypes dec None [])"
proof -
  have "extractTypes dec acc out =
     ((case acc of None \<Rightarrow> [] | Some a \<Rightarrow> a) @ fst (extractTypes dec None []),
      out @ snd (extractTypes dec None []))"
    by (rule extractTypes_acc)
  then show ?thesis by (simp only: snd_conv)
qed

lemma extractTypes_children_snd:
  "snd (extractTypes d acc out) =
     out @ (case children d of None \<Rightarrow> [] | Some l \<Rightarrow> snd (forEach_child l ([], [])))"
proof (cases d)
  case (Reflection i n k cs t tp tps sigs)
  show ?thesis
  proof (cases cs)
    case None
    with Reflection show ?thesis by simp
  next
    case (Some l)
    with Reflection show ?thesis
      using forEach_child_snd[of l "(case acc of None \<Rightarrow> [] | Some a \<Rightarrow> a, out)"]
      by simp
  qed
qed

lemma logged_Cons:
  "snd (forEach_child (c # rest) ([], [])) =
     (if ignoredKind c \<or> typeKind c then []
      else (kindString c, c) # snd (extractTypes c None []))
       @ snd (forEach_child rest ([], []))"
proof -
  define B where "B = snd (forEach_child rest ([], []))"
  define D where "D = snd (extractTypes c None [])"
  have r: "\<And>st. snd (forEach_child rest st) = snd st @ B"
    unfolding B_def by (rule forEach_child_snd)
  have e: "\<And>ts out. snd (extractTypes c (Some ts) out) = out @ D"
    unfolding D_def by (rule extractTypes_snd)
  have n: "children c = None \<Longrightarrow> D = []"
    unfolding D_def by (simp add: extractTypes_children_snd)
  have "snd (forEach_child (c # rest) ([], [])) =
     (if ignoredKind c \<or> typeKind c then [] else (kindString c, c) # D) @ B"
    by (simp add: ignoredKind_def typeKind_def r e n split: option.split)
  then show ?thesis by (simp only: B_def D_def)
qed

lemma logged_prune_aux:
  "snd (extractTypes (prune d) None []) =
     map (\<lambda>(k, c). (k, prune c)) (snd (extractTypes d None []))"
  "snd (forEach_child (prune_list cs) ([], [])) =
     map (\<lambda>(k, c). (k, prune c)) (snd (forEach_child cs ([], [])))"
proof (induction d and cs rule: prune_prune_list.induct)
  case (1 i n k cs t tp tps sigs)
  then show ?case
    by (cases cs) (simp_all add: extractTypes_children_snd)
next
  case 2
  show ?case by simp
next
  case (3 c rest)
  then show ?case
    by (simp add: logged_Cons ignoredKind_def typeKind_def cutChildren_def
        del: forEach_child.simps(2))
qed

lemma logged_wrappers_aux:
  "list_all (\<lambda>(k, c). wrapperKind c \<and> k = kindString c) (snd (extractTypes d None []))"
  "list_all (\<lambda>(k, c). wrapperKind c \<and> k = kindString c) (snd (forEach_child cs ([], [])))"
proof (induction d and cs rule: descendants_descendants_list.induct)
  case (1 i n k cs t tp tps sigs)
  then show ?case
    by (cases cs) (simp_all add: extractTypes_children_snd)
next
  case 2
  show ?case by simp
next
  case (3 c rest)
  then show ?case
    by (simp add: logged_Cons wrapperKind_def del: forEach_child.simps(2))
qed

text \<open>
  C1. On a tree whose Interface and Type alias nodes lie directly under the root or under
  wrappers of unrecognised kind only, \<open>extractTypes\<close> returns exactly the Interface
  and Type alias nodes of the tree, in document order. On every tree, each node it
  returns is an Interface or a Type alias, and it neither returns nor visits anything
  inside a Module or a Function: cutting off the subtree of every Module and Function
  changes neither the sequence returned nor the console, where each visit of a node of
  another kind leaves a line (the nodes logged are the same, with the same subtrees cut
  off), and only nodes of an unrecognised kind are logged.
\<close>

theorem extractTypes_exact:
  "(wrappedOnly root \<longrightarrow>
      fst (extractTypes root None out) = filter typeKind (descendants root)) \<and>
   list_all typeKind (fst (extractTypes root None out)) \<and>
   fst (extractTypes (prune root) None out) = fst (extractTypes root None out) \<and>
   snd (extractTypes (prune root) None out) =
     out @ map (\<lambda>(k, c). (k, prune c)) (snd (extractTypes root None [])) \<and>
   snd (extractTypes root None out) = out @ snd (extractTypes root None []) \<and>
   list_all (\<lambda>(k, c). wrapperKind c \<and> k = kindString c) (snd (extractTypes root None []))"
proof -
  have top: "\<And>d. fst (extractTypes d None out) = fst (extractTypes d None [])"
    by (rule extractTypes_top)
  have "wrappedOnly root \<longrightarrow>
      fst (extractTypes root None []) = filter typeKind (descendants root)"
    using extract_wrapped_aux(1)[of root] by (simp add: wrappedOnly_def)
  moreover have "list_all typeKind (fst (extractTypes root None []))"
    by (rule extracted_typeKind_aux(1))
  moreover have "fst (extractTypes (prune root) None []) = fst (extractTypes root None [])"
    by (rule extract_prune_aux(1))
  moreover have "snd (extractTypes (prune root) None out) =
     out @ map (\<lambda>(k, c). (k, prune c)) (snd (extractTypes root None []))"
    by (subst extractTypes_snd) (simp only: logged_prune_aux(1))
  moreover have "snd (extractTypes root None out) = out @ snd (extractTypes root None [])"
    by (rule extractTypes_snd)
  moreover have
    "list_all (\<lambda>(k, c). wrapperKind c \<and> k = kindString c) (snd (extractTypes root None []))"
    by (rule logged_wrappers_aux(1))
  ultimately show ?thesis by (simp only: top simp_thms)
qed

theorem extractTypes_exact_witness:
  "wrappedOnly sampleDoc \<and>
   extractTypes sampleDoc None [] =
     ([decl 1 ''Interval'' ''Interface'' (Some [decl 2 ''start'' ''Property'' None]),
       decl 4 ''Duration'' ''Type alias'' None],
      [(Some ''Namespace'',
        decl 3 ''internal'' ''Namespace'' (Some [decl 4 ''Duration'' ''Type alias'' None]))]) \<and>
   filter typeKind (descendants sampleDoc) = fst (extractTypes sampleDoc None [])"
proof -
  have w: "wrappedOnly sampleDoc"
    by (simp add: wrappedOnly_def sampleDoc_def decl_def wrapperKind_def ignoredKind_def
        typeKind_def)
  have e: "extractTypes sampleDoc None [] =
     ([decl 1 ''Interval'' ''Interface'' (Some [decl 2 ''start'' ''Property'' None]),
       decl 4 ''Duration'' ''Type alias'' None],
      [(Some ''Namespace'',
        decl 3 ''internal'' ''Namespace'' (Some [decl 4 ''Duration'' ''Type alias'' None]))])"
    by (simp add: sampleDoc_def decl_def)
  from extractTypes_exact[of sampleDoc "[]"] w e show ?thesis by simp
qed

section \<open>Properties of the type extractor on the heap\<close>

lemma over_lookup:
  assumes "over h g t" and "lookup h a = Some x"
  shows "lookup g a = Some x"
proof -
  from assms(2) have a: "a < length h" and x: "h ! a = x"
    by (auto simp: lookup_def split: if_splits)
  from assms(1) have "take (length h) g = h" and l: "length h < length g"
    by (auto simp: over_def)
  then have "g ! a = h ! a" using a by (metis nth_take)
  with a l x show ?thesis by (simp add: lookup_def)
qed

lemma over_declAt:
  assumes "over h g t" and "declAt h a = Some x"
  shows "declAt g a = Some x"
proof -
  from assms(2) obtain ob where "lookup h a = Some ob"
    by (auto simp: declAt_def split: option.splits)
  with assms show ?thesis
    using over_lookup[of h g t a ob] by (simp add: declAt_def)
qed

lemma over_arrayAt:
  assumes "over h g t" and "arrayAt h a = Some x"
  shows "arrayAt g a = Some x"
proof -
  from assms(2) obtain ob where "lookup h a = Some ob"
    by (auto simp: arrayAt_def split: option.splits)
  with assms show ?thesis
    using over_lookup[of h g t a ob] by (simp add: arrayAt_def)
qed

lemma over_update: "over h g t \<Longrightarrow> over h (g[t := v]) t"
  by (simp add: over_def)

lemma arrayAt_update: "t < length g \<Longrightarrow> arrayAt (g[t := Array xs]) t = Some xs"
  by (simp add: arrayAt_def lookup_def)

lemma arrayAt_same: "arrayAt g t = Some ts \<Longrightarrow> g[t := Array ts] = g"
proof -
  assume "arrayAt g t = Some ts"
  then have "t < length g" and "g ! t = Array ts"
    by (auto simp: arrayAt_def lookup_def split: if_splits option.splits object.splits)
  then show ?thesis by (metis list_update_id)
qed

lemma treeAt_declAt: "treeAt h m a \<Longrightarrow> \<exists>k cs. declAt h a = Some (k, cs)"
  by (cases m) (auto split: option.splits)

lemma treeAt_0: "treeAt h 0 a \<Longrightarrow> \<exists>k. declAt h a = Some (k, None)"
  by (auto split: option.splits)

lemma treeAt_Suc:
  "treeAt h (Suc m) a \<Longrightarrow> declAt h a = Some (k, Some ca) \<Longrightarrow>
     \<exists>els. arrayAt h ca = Some els \<and> list_all (treeAt h m) els"
  by (auto split: option.splits)

subsection \<open>A call only appends to its array, and what it appends depends on the tree alone\<close>

lemma forEachH_effect:
  assumes P: "\<And>a. treeAt h m a \<Longrightarrow>
      \<exists>added logs. \<forall>g t ts out. over h g t \<longrightarrow> arrayAt g t = Some ts \<longrightarrow>
        extractTypesH (Suc m) a (Some t) (g, out) =
          Some (t, g[t := Array (ts @ added)], out @ logs)"
  shows "list_all (treeAt h m) els \<Longrightarrow>
      \<exists>added logs. \<forall>g t ts out. over h g t \<longrightarrow> arrayAt g t = Some ts \<longrightarrow>
        forEachH (Suc m) els t (g, out) = Some (g[t := Array (ts @ added)], out @ logs)"
proof (induction els)
  case Nil
  have "\<forall>g t ts out. over h g t \<longrightarrow> arrayAt g t = Some ts \<longrightarrow>
      forEachH (Suc m) [] t (g, out) = Some (g[t := Array (ts @ [])], out @ [])"
    by (simp add: arrayAt_same)
  then show ?case by blast
next
  case (Cons c rest)
  from Cons.prems have tc: "treeAt h m c" and tr: "list_all (treeAt h m) rest"
    by simp_all
  from Cons.IH[OF tr] obtain addedR logsR where
    R: "\<And>g t ts out. over h g t \<Longrightarrow> arrayAt g t = Some ts \<Longrightarrow>
      forEachH (Suc m) rest t (g, out) = Some (g[t := Array (ts @ addedR)], out @ logsR)"
    by blast
  from treeAt_declAt[OF tc] obtain k cs where d: "declAt h c = Some (k, cs)"
    by blast
  show ?case
  proof (cases "k = Some ''Module'' \<or> k = Some ''Function''")
    case True
    have "\<forall>g t ts out. over h g t \<longrightarrow> arrayAt g t = Some ts \<longrightarrow>
        forEachH (Suc m) (c # rest) t (g, out) =
          Some (g[t := Array (ts @ addedR)], out @ logsR)"
    proof (intro allI impI)
      fix g t ts out
      assume o: "over h g t" and a: "arrayAt g t = Some ts"
      from o d have "declAt g c = Some (k, cs)" by (rule over_declAt)
      with True R[OF o a] show "forEachH (Suc m) (c # rest) t (g, out) =
          Some (g[t := Array (ts @ addedR)], out @ logsR)"
        by simp
    qed
    then show ?thesis by blast
  next
    case notIgnored: False
    show ?thesis
    proof (cases "k = Some ''Interface'' \<or> k = Some ''Type alias''")
      case True
      have "\<forall>g t ts out. over h g t \<longrightarrow> arrayAt g t = Some ts \<longrightarrow>
          forEachH (Suc m) (c # rest) t (g, out) =
            Some (g[t := Array (ts @ (c # addedR))], out @ logsR)"
      proof (intro allI impI)
        fix g t ts out
        assume o: "over h g t" and a: "arrayAt g t = Some ts"
        from o d have dg: "declAt g c = Some (k, cs)" by (rule over_declAt)
        from o have lt: "t < length g" by (simp add: over_def)
        have o': "over h (g[t := Array (ts @ [c])]) t" using o by (rule over_update)
        have a': "arrayAt (g[t := Array (ts @ [c])]) t = Some (ts @ [c])"
          using lt by (rule arrayAt_update)
        from R[OF o' a'] have "forEachH (Suc m) rest t (g[t := Array (ts @ [c])], out) =
            Some (g[t := Array (ts @ (c # addedR))], out @ logsR)"
          by simp
        with notIgnored True dg a show "forEachH (Suc m) (c # rest) t (g, out) =
            Some (g[t := Array (ts @ (c # addedR))], out @ logsR)"
          by simp
      qed
      then show ?thesis by blast
    next
      case notType: False
      show ?thesis
      proof (cases cs)
        case None
        have "\<forall>g t ts out. over h g t \<longrightarrow> arrayAt g t = Some ts \<longrightarrow>
            forEachH (Suc m) (c # rest) t (g, out) =
              Some (g[t := Array (ts @ addedR)], out @ ((k, c) # logsR))"
        proof (intro allI impI)
          fix g t ts out
          assume o: "over h g t" and a: "arrayAt g t = Some ts"
          from o d have dg: "declAt g c = Some (k, cs)" by (rule over_declAt)
          from R[OF o a, of "out @ [(k, c)]"] notIgnored notType None dg
          show "forEachH (Suc m) (c # rest) t (g, out) =
              Some (g[t := Array (ts @ addedR)], out @ ((k, c) # logsR))"
            by simp
        qed
        then show ?thesis by blast
      next
        case (Some ca)
        from P[OF tc] obtain addedC logsC where
          C: "\<And>g t ts out. over h g t \<Longrightarrow> arrayAt g t = Some ts \<Longrightarrow>
            extractTypesH (Suc m) c (Some t) (g, out) =
              Some (t, g[t := Array (ts @ addedC)], out @ logsC)"
          by blast
        have "\<forall>g t ts out. over h g t \<longrightarrow> arrayAt g t = Some ts \<longrightarrow>
            forEachH (Suc m) (c # rest) t (g, out) =
              Some (g[t := Array (ts @ (addedC @ addedR))], out @ ((k, c) # logsC @ logsR))"
        proof (intro allI impI)
          fix g t ts out
          assume o: "over h g t" and a: "arrayAt g t = Some ts"
          from o d have dg: "declAt g c = Some (k, cs)" by (rule over_declAt)
          from o have lt: "t < length g" by (simp add: over_def)
          have o': "over h (g[t := Array (ts @ addedC)]) t" using o by (rule over_update)
          have a': "arrayAt (g[t := Array (ts @ addedC)]) t = Some (ts @ addedC)"
            using lt by (rule arrayAt_update)
          have e: "extractTypesH (Suc m) c (Some t) (g, out @ [(k, c)]) =
              Some (t, g[t := Array (ts @ addedC)], (out @ [(k, c)]) @ logsC)"
            using o a by (rule C)
          have r: "forEachH (Suc m) rest t (g[t := Array (ts @ addedC)], (out @ [(k, c)]) @ logsC) =
              Some (g[t := Array (ts @ (addedC @ addedR))], out @ ((k, c) # logsC @ logsR))"
            using R[OF o' a', of "(out @ [(k, c)]) @ logsC"] by simp
          from notIgnored notType Some dg e r
          show "forEachH (Suc m) (c # rest) t (g, out) =
              Some (g[t := Array (ts @ (addedC @ addedR))], out @ ((k, c) # logsC @ logsR))"
            by (simp del: extractTypesH.simps)
        qed
        then show ?thesis by blast
      qed
    qed
  qed
qed

lemma extractTypesH_effect:
  "treeAt h m a \<Longrightarrow>
     \<exists>added logs. \<forall>g t ts out. over h g t \<longrightarrow> arrayAt g t = Some ts \<longrightarrow>
       extractTypesH (Suc m) a (Some t) (g, out) =
         Some (t, g[t := Array (ts @ added)], out @ logs)"
proof (induction m arbitrary: a)
  case 0
  from treeAt_0[OF 0] obtain k where d: "declAt h a = Some (k, None)" by blast
  have "\<forall>g t ts out. over h g t \<longrightarrow> arrayAt g t = Some ts \<longrightarrow>
      extractTypesH (Suc 0) a (Some t) (g, out) = Some (t, g[t := Array (ts @ [])], out @ [])"
  proof (intro allI impI)
    fix g t ts out
    assume o: "over h g t" and a: "arrayAt g t = Some ts"
    from o d have "declAt g a = Some (k, None)" by (rule over_declAt)
    with a show "extractTypesH (Suc 0) a (Some t) (g, out) =
        Some (t, g[t := Array (ts @ [])], out @ [])"
      by (simp add: arrayAt_same)
  qed
  then show ?case by blast
next
  case (Suc m)
  from treeAt_declAt[OF Suc.prems] obtain k cs where d: "declAt h a = Some (k, cs)"
    by blast
  show ?case
  proof (cases cs)
    case None
    have "\<forall>g t ts out. over h g t \<longrightarrow> arrayAt g t = Some ts \<longrightarrow>
        extractTypesH (Suc (Suc m)) a (Some t) (g, out) =
          Some (t, g[t := Array (ts @ [])], out @ [])"
    proof (intro allI impI)
      fix g t ts out
      assume o: "over h g t" and a: "arrayAt g t = Some ts"
      from o d have "declAt g a = Some (k, cs)" by (rule over_declAt)
      with a None show "extractTypesH (Suc (Suc m)) a (Some t) (g, out) =
          Some (t, g[t := Array (ts @ [])], out @ [])"
        by (simp add: arrayAt_same)
    qed
    then show ?thesis by blast
  next
    case (Some ca)
    with Suc.prems d obtain els where
      els: "arrayAt h ca = Some els" and t: "list_all (treeAt h m) els"
      using treeAt_Suc by blast
    from forEachH_effect[OF Suc.IH t] obtain added logs where
      F: "\<And>g t ts out. over h g t \<Longrightarrow> arrayAt g t = Some ts \<Longrightarrow>
        forEachH (Suc m) els t (g, out) = Some (g[t := Array (ts @ added)], out @ logs)"
      by blast
    have "\<forall>g t ts out. over h g t \<longrightarrow> arrayAt g t = Some ts \<longrightarrow>
        extractTypesH (Suc (Suc m)) a (Some t) (g, out) =
          Some (t, g[t := Array (ts @ added)], out @ logs)"
    proof (intro allI impI)
      fix g t ts out
      assume o: "over h g t" and a: "arrayAt g t = Some ts"
      from o d have dg: "declAt g a = Some (k, cs)" by (rule over_declAt)
      from o els have eg: "arrayAt g ca = Some els" by (rule over_arrayAt)
      from dg eg Some F[OF o a, of out]
      show "extractTypesH (Suc (Suc m)) a (Some t) (g, out) =
          Some (t, g[t := Array (ts @ added)], out @ logs)"
        by (simp del: forEachH.simps)
    qed
    then show ?thesis by blast
  qed
qed

lemma extractTypesH_fresh:
  "extractTypesH (Suc n) dec None (h, out) =
     extractTypesH (Suc n) dec (Some (length h)) (h @ [Array []], out)"
  by (simp add: Let_def)

text \<open>
  C10. Let the heap hold the metadata as a finite tree below \<open>doc\<close>. Then
  \<^verbatim>\<open>extractTypes(doc)\<close> returns, and so does a second call made on the heap (and the
  console) the first one left. Each call returns a newly allocated array; the two arrays
  are different objects that hold the same sequence of references. After each call the
  heap is the heap from before the call with the new array added: no object that existed
  before, so no node and no \<^verbatim>\<open>children\<close> array of the tree, has been changed.
\<close>

theorem extractTypes_twice_same_sequence_tree_untouched:
  assumes "treeAt h n doc"
  shows "\<exists>els logs.
     extractTypesH (Suc n) doc None (h, out) =
       Some (length h, h @ [Array els], out @ logs) \<and>
     extractTypesH (Suc n) doc None (h @ [Array els], out @ logs) =
       Some (Suc (length h), h @ [Array els, Array els], out @ logs @ logs)"
proof -
  from extractTypesH_effect[OF assms] obtain els logs where
    E: "\<And>g t ts out. over h g t \<Longrightarrow> arrayAt g t = Some ts \<Longrightarrow>
      extractTypesH (Suc n) doc (Some t) (g, out) =
        Some (t, g[t := Array (ts @ els)], out @ logs)"
    by blast
  have o1: "over h (h @ [Array []]) (length h)" by (simp add: over_def)
  have a1: "arrayAt (h @ [Array []]) (length h) = Some []"
    by (simp add: arrayAt_def lookup_def)
  have first: "extractTypesH (Suc n) doc None (h, out) =
      Some (length h, h @ [Array els], out @ logs)"
    using E[OF o1 a1, of out] by (simp only: extractTypesH_fresh) simp
  have o2: "over h ((h @ [Array els]) @ [Array []]) (length (h @ [Array els]))"
    by (simp add: over_def)
  have a2: "arrayAt ((h @ [Array els]) @ [Array []]) (length (h @ [Array els])) = Some []"
    by (simp add: arrayAt_def lookup_def nth_append)
  have "extractTypesH (Suc n) doc None (h @ [Array els], out @ logs) =
      Some (length (h @ [Array els]),
            ((h @ [Array els]) @ [Array []])[length (h @ [Array els]) := Array ([] @ els)],
            (out @ logs) @ logs)"
    using E[OF o2 a2, of "out @ logs"] by (simp only: extractTypesH_fresh)
  then have second: "extractTypesH (Suc n) doc None (h @ [Array els], out @ logs) =
      Some (Suc (length h), h @ [Array els, Array els], out @ logs @ logs)"
    by (simp add: list_update_append)
  from first second show ?thesis by blast
qed

theorem extractTypes_twice_same_sequence_tree_untouched_witness:
  "treeAt sampleHeap 2 0 \<and>
   extractTypesH 3 0 None (sampleHeap, []) =
     Some (11, sampleHeap @ [Array [2, 6]], [(Some ''Namespace'', 4)]) \<and>
   extractTypesH 3 0 None (sampleHeap @ [Array [2, 6]], [(Some ''Namespace'', 4)]) =
     Some (12, sampleHeap @ [Array [2, 6], Array [2, 6]],
           [(Some ''Namespace'', 4), (Some ''Namespace'', 4)])"
proof -
  have t: "treeAt sampleHeap 2 0"
    by (simp add: sampleHeap_def declAt_def arrayAt_def lookup_def numeral_2_eq_2)
  have f: "extractTypesH 3 0 None (sampleHeap, []) =
     Some (11, sampleHeap @ [Array [2, 6]], [(Some ''Namespace'', 4)])"
    by (simp add: sampleHeap_def declAt_def arrayAt_def lookup_def numeral_3_eq_3 Let_def)
  from extractTypes_twice_same_sequence_tree_untouched[OF t, of "[]"] obtain els logs where
    1: "extractTypesH (Suc 2) 0 None (sampleHeap, []) =
       Some (length sampleHeap, sampleHeap @ [Array els], [] @ logs)"
    and 2: "extractTypesH (Suc 2) 0 None (sampleHeap @ [Array els], [] @ logs) =
       Some (Suc (length sampleHeap), sampleHeap @ [Array els, Array els], [] @ logs @ logs)"
    by blast
  have s: "Suc 2 = 3" by simp
  from 1 f have "els = [2, 6]" and "logs = [(Some ''Namespace'', 4)]"
    by (simp_all add: s)
  with 2 have "extractTypesH 3 0 None (sampleHeap @ [Array [2, 6]], [(Some ''Namespace'', 4)]) =
     Some (12, sampleHeap @ [Array [2, 6], Array [2, 6]],
           [(Some ''Namespace'', 4), (Some ''Namespace'', 4)])"
    by (simp add: s sampleHeap_def)
  with t f show ?thesis by simp
qed

section \<open>Properties of the parent-type map\<close>

subsection \<open>The builder registers the parameters of the visited nodes, in order\<close>

lemma fold_concat_map: "fold f (concat (map g xs)) = fold (\<lambda>x. fold f (g x)) xs"
  by (induction xs) simp_all

lemma buildParentTypesMap_step:
  "buildParentTypesMap h (Some r) (Some ty) (Some m) =
     (case type ty of
        None \<Rightarrow> registerParams h r ty m
      | Some t \<Rightarrow>
          fold (\<lambda>ref m. fold (\<lambda>signature m'.
                                buildParentTypesMap h (Some r) (Some signature) (Some m'))
                           (inlineSignatures ref) m)
            (traverseType t) (registerParams h r ty m))"
  by (subst buildParentTypesMap.simps) (simp add: Let_def split: option.split)

lemma buildParentTypesMap_visits:
  "buildParentTypesMap h (Some r) (Some ty) (Some m) = fold (registerParams h r) (visits ty) m"
proof (induction ty arbitrary: m rule: visits.induct)
  case (1 ty)
  show ?case
  proof (cases "type ty")
    case None
    then show ?thesis
      by (subst buildParentTypesMap_step, subst visits.simps) simp
  next
    case (Some t)
    have v: "visits ty =
        ty # concat (map (\<lambda>ref. concat (map visits (inlineSignatures ref))) (traverseType t))"
      by (subst visits.simps) (simp add: Some)
    have inner: "fold (\<lambda>signature m'. buildParentTypesMap h (Some r) (Some signature) (Some m'))
          (inlineSignatures ref) m0 =
        fold (registerParams h r) (concat (map visits (inlineSignatures ref))) m0"
      if "ref \<in> set (traverseType t)" for ref m0
    proof -
      have "fold (\<lambda>signature m'. buildParentTypesMap h (Some r) (Some signature) (Some m'))
          (inlineSignatures ref) m0 =
        fold (\<lambda>signature. fold (registerParams h r) (visits signature)) (inlineSignatures ref) m0"
        by (rule fold_cong) (simp_all add: "1.IH"[OF Some that])
      then show ?thesis by (simp only: fold_concat_map)
    qed
    have "fold (\<lambda>ref m. fold (\<lambda>signature m'.
                                buildParentTypesMap h (Some r) (Some signature) (Some m'))
                           (inlineSignatures ref) m)
            (traverseType t) (registerParams h r ty m) =
          fold (\<lambda>ref. fold (registerParams h r) (concat (map visits (inlineSignatures ref))))
            (traverseType t) (registerParams h r ty m)"
      by (rule fold_cong) (simp_all add: inner)
    also have "\<dots> = fold (registerParams h r)
        (concat (map (\<lambda>ref. concat (map visits (inlineSignatures ref))) (traverseType t)))
        (registerParams h r ty m)"
      by (simp only: fold_concat_map)
    also have "\<dots> = fold (registerParams h r) (visits ty) m"
      by (simp add: v)
    finally show ?thesis
      by (subst buildParentTypesMap_step) (simp add: Some)
  qed
qed

lemma buildParentTypesMap_top:
  "buildParentTypesMap h (Some r) None None = fold (registerParams h r) (visits r) Map.empty"
proof -
  have "buildParentTypesMap h (Some r) None None =
      buildParentTypesMap h (Some r) (Some r) (Some Map.empty)"
    by (subst buildParentTypesMap.simps, subst (2) buildParentTypesMap.simps) (simp add: Let_def)
  then show ?thesis by (simp only: buildParentTypesMap_visits)
qed

lemma registerParams_paramsOf:
  "registerParams h r = (\<lambda>ty. fold (\<lambda>ref m'. m'(id' ref \<mapsto> h r ref)) (paramsOf ty))"
  by (intro ext) (simp add: registerParams_def paramsOf_def split: option.split)

lemma buildParentTypesMap_registered:
  "buildParentTypesMap h (Some r) None None =
     fold (\<lambda>ref m'. m'(id' ref \<mapsto> h r ref)) (registered r) Map.empty"
proof -
  have "fold (registerParams h r) (visits r) Map.empty =
      fold (\<lambda>node. fold (\<lambda>ref m'. m'(id' ref \<mapsto> h r ref)) (paramsOf node)) (visits r) Map.empty"
    by (simp only: registerParams_paramsOf)
  also have "\<dots> =
      fold (\<lambda>ref m'. m'(id' ref \<mapsto> h r ref)) (concat (map paramsOf (visits r))) Map.empty"
    by (simp only: fold_concat_map)
  finally show ?thesis by (simp only: buildParentTypesMap_top registered_def)
qed

subsection \<open>Looking up a key after a run of assignments\<close>

lemma fold_upd_notin:
  "k \<notin> id' ` set ps \<Longrightarrow> fold (\<lambda>ref m'. m'(id' ref \<mapsto> f ref)) ps m k = m k"
  by (induction ps arbitrary: m) auto

lemma fold_upd_in:
  "inj_on id' (set ps) \<Longrightarrow> p \<in> set ps \<Longrightarrow>
     fold (\<lambda>ref m'. m'(id' ref \<mapsto> f ref)) ps m (id' p) = Some (f p)"
proof (induction ps arbitrary: m)
  case Nil
  then show ?case by simp
next
  case (Cons a ps)
  show ?case
  proof (cases "p \<in> set ps")
    case True
    moreover from Cons.prems(1) have "inj_on id' (set ps)"
      by (simp add: inj_on_def)
    ultimately show ?thesis using Cons.IH by simp
  next
    case False
    with Cons.prems(2) have pa: "p = a" by simp
    have "id' a \<notin> id' ` set ps"
    proof
      assume "id' a \<in> id' ` set ps"
      then obtain q where q: "q \<in> set ps" "id' q = id' a" by auto
      with Cons.prems(1) have "q = a" by (auto simp: inj_on_def)
      with q(1) False pa show False by simp
    qed
    then have "fold (\<lambda>ref m'. m'(id' ref \<mapsto> f ref)) ps (m(id' a \<mapsto> f a)) (id' a) =
        (m(id' a \<mapsto> f a)) (id' a)"
      by (rule fold_upd_notin)
    also have "\<dots> = Some (f a)" by simp
    finally have "fold (\<lambda>ref m'. m'(id' ref \<mapsto> f ref)) (a # ps) m (id' a) = Some (f a)"
      by (simp only: fold_simps o_apply)
    then show ?thesis by (simp only: pa)
  qed
qed

lemma fold_upd_Some:
  "fold (\<lambda>ref m'. m'(id' ref \<mapsto> f ref)) ps m k = Some v \<Longrightarrow>
     m k = Some v \<or> (\<exists>p \<in> set ps. k = id' p \<and> v = f p)"
proof (induction ps arbitrary: m)
  case Nil
  then show ?case by simp
next
  case (Cons a ps)
  from Cons.IH[of "m(id' a \<mapsto> f a)"] Cons.prems
  have "(m(id' a \<mapsto> f a)) k = Some v \<or> (\<exists>p \<in> set ps. k = id' p \<and> v = f p)"
    by simp
  then show ?case by (auto split: if_splits)
qed

subsection \<open>The visited nodes are the focal node and the signatures nested in it\<close>

lemma visits_self: "ty \<in> set (visits ty)"
  by (subst visits.simps) simp

lemma traverseType_self: "t \<in> set (traverseType t)"
  by (cases t) simp

lemma traverseType_part:
  "p \<in> set (parts t) \<Longrightarrow> ref \<in> set (traverseType p) \<Longrightarrow> ref \<in> set (traverseType t)"
  by (cases t) auto

lemma subExpr_traverseType: "subExpr ref t \<Longrightarrow> ref \<in> set (traverseType t)"
  by (induction rule: subExpr.induct) (auto intro: traverseType_self traverseType_part)

lemma traverseType_subExpr: "ref \<in> set (traverseType t) \<Longrightarrow> subExpr ref t"
proof (induction t arbitrary: ref rule: traverseType.induct)
  case (1 tag d ps)
  from 1(2) consider "ref = SomeType tag d ps"
    | p where "p \<in> set ps" "ref \<in> set (traverseType p)"
    by auto
  then show ?case
  proof cases
    case 1
    then show ?thesis by (simp add: subExpr.here)
  next
    case 2
    with "1.IH" have "subExpr ref p" by simp
    with 2(1) show ?thesis by (auto intro: subExpr.inside)
  qed
qed

lemma visits_below:
  assumes "type ty = Some t" "ref \<in> set (traverseType t)" "sg \<in> set (inlineSignatures ref)"
    "x \<in> set (visits sg)"
  shows "x \<in> set (visits ty)"
  using assms by (subst visits.simps) auto

lemma inlineSig_visits:
  assumes "inlineSig node sg" and "x \<in> set (visits sg)"
  shows "x \<in> set (visits node)"
  using assms(1)
proof cases
  case (1 t ref d sigs)
  from 1(3-6) have "sg \<in> set (inlineSignatures ref)"
    by (simp add: inlineSignatures_eqs)
  with 1(1) subExpr_traverseType[OF 1(2)] show ?thesis
    using assms(2) by (rule visits_below)
qed

lemma nestedSig_visits: "nestedSig node sg \<Longrightarrow> sg \<in> set (visits node)"
proof (induction rule: nestedSig.induct)
  case (direct node sg)
  then show ?case by (rule inlineSig_visits) (rule visits_self)
next
  case (deeper node sg sg')
  from deeper(1) deeper.IH show ?case by (rule inlineSig_visits)
qed

lemma visits_unfold:
  "type ty = None \<Longrightarrow> visits ty = [ty]"
  "type ty = Some t \<Longrightarrow> visits ty =
     ty # concat (map (\<lambda>ref. concat (map visits (inlineSignatures ref))) (traverseType t))"
  by (subst visits.simps, simp)+

lemma visits_nestedSig: "x \<in> set (visits node) \<Longrightarrow> x = node \<or> nestedSig node x"
proof (induction node arbitrary: x rule: visits.induct)
  case (1 ty)
  show ?case
  proof (cases "type ty")
    case None
    with "1.prems" show ?thesis by (simp add: visits_unfold)
  next
    case (Some t)
    show ?thesis
    proof (cases "x = ty")
      case True
      then show ?thesis by simp
    next
      case False
      with "1.prems" obtain ref sg where
        r: "ref \<in> set (traverseType t)"
        and s: "sg \<in> set (inlineSignatures ref)" and x: "x \<in> set (visits sg)"
        by (auto simp: visits_unfold(2)[OF Some])
      from s obtain d sigs where "type_tag ref = ''reflection''" "declaration' ref = Some d"
        "signatures d = Some sigs" "sg \<in> set sigs"
        by (rule inlineSignatures_cases)
      with Some traverseType_subExpr[OF r] have i: "inlineSig ty sg"
        by (rule inlineSig.intros)
      from "1.IH"[OF Some r s x] have "x = sg \<or> nestedSig sg x" .
      with i have "nestedSig ty x"
        by (auto intro: nestedSig.direct nestedSig.deeper)
      then show ?thesis ..
    qed
  qed
qed

lemma registered_iff:
  "p \<in> set (registered focal) \<longleftrightarrow>
     (\<exists>node. (node = focal \<or> nestedSig focal node) \<and> p \<in> set (paramsOf node))"
proof
  assume "p \<in> set (registered focal)"
  then obtain node where "node \<in> set (visits focal)" "p \<in> set (paramsOf node)"
    by (auto simp: registered_def)
  then show "\<exists>node. (node = focal \<or> nestedSig focal node) \<and> p \<in> set (paramsOf node)"
    using visits_nestedSig by blast
next
  assume "\<exists>node. (node = focal \<or> nestedSig focal node) \<and> p \<in> set (paramsOf node)"
  then obtain node where n: "node = focal \<or> nestedSig focal node" and p: "p \<in> set (paramsOf node)"
    by blast
  from n have "node \<in> set (visits focal)"
    using visits_self nestedSig_visits by blast
  with p show "p \<in> set (registered focal)"
    by (auto simp: registered_def)
qed

lemma registered_lookup:
  assumes "node = focal \<or> nestedSig focal node" and "typeParams node = Some ps" and "p \<in> set ps"
    and "inj_on id' (set (registered focal))"
  shows "buildParentTypesMap h (Some focal) None None (id' p) = Some (h focal p)"
proof -
  from assms(2,3) have "p \<in> set (paramsOf node)" by (simp add: paramsOf_def)
  with assms(1) have "p \<in> set (registered focal)"
    unfolding registered_iff by blast
  with assms(4) show ?thesis
    by (simp only: buildParentTypesMap_registered fold_upd_in)
qed

lemma entries_anchored:
  assumes "buildParentTypesMap h (Some focal) None None k = Some v"
  shows "\<exists>p \<in> set (registered focal). k = id' p \<and> v = h focal p"
  using fold_upd_Some[of "h focal" "registered focal" Map.empty k v] assms
  by (simp add: buildParentTypesMap_registered)

subsection \<open>The sample alias and the deep chain\<close>

lemma traverseType_functionType: "traverseType (functionType sigs) = [functionType sigs]"
  by (simp add: functionType_def)

lemma inlineSignatures_functionType: "inlineSignatures (functionType sigs) = sigs"
  by (simp add: functionType_def inlineSignatures_eqs)

lemma visits_callSignature:
  "visits (callSignature i tps None) = [callSignature i tps None]"
  "visits (callSignature i tps (Some (functionType [sg]))) =
     callSignature i tps (Some (functionType [sg])) # visits sg"
  by (simp_all add: visits_unfold callSignature_def traverseType_functionType
      inlineSignatures_functionType)

lemma paramsOf_callSignature:
  "paramsOf (callSignature i tps t) = (case tps of None \<Rightarrow> [] | Some ps \<Rightarrow> ps)"
  by (simp add: paramsOf_def typeParams_def callSignature_def split: option.split)

lemma inlineSigI:
  assumes "type node = Some t" "ref \<in> set (traverseType t)" "sg \<in> set (inlineSignatures ref)"
  shows "inlineSig node sg"
proof -
  from assms(3) obtain d sigs where "type_tag ref = ''reflection''" "declaration' ref = Some d"
    "signatures d = Some sigs" "sg \<in> set sigs"
    by (rule inlineSignatures_cases)
  with assms(1) traverseType_subExpr[OF assms(2)] show ?thesis
    by (rule inlineSig.intros)
qed

lemma registered_sampleAlias:
  "registered sampleAlias = [typeParam 11 ''T'', typeParam 13 ''Q'']"
proof -
  have "visits sampleAlias =
      [sampleAlias, callSignature 12 (Some [typeParam 13 ''Q'']) None]"
    by (simp add: visits_unfold sampleAlias_def traverseType_functionType
        inlineSignatures_functionType visits_callSignature inlineSignatures_eqs
        functionType_def)
  moreover have "paramsOf sampleAlias = [typeParam 11 ''T'']"
    by (simp add: paramsOf_def typeParams_def sampleAlias_def)
  ultimately show ?thesis
    by (simp add: registered_def paramsOf_callSignature)
qed

lemma nested_sampleAlias:
  "nestedSig sampleAlias (callSignature 12 (Some [typeParam 13 ''Q'']) None)"
proof (rule nestedSig.direct, rule inlineSigI)
  show "type sampleAlias = Some (SomeType ''array'' None
      [functionType [callSignature 12 (Some [typeParam 13 ''Q'']) None]])"
    by (simp add: sampleAlias_def)
  show "functionType [callSignature 12 (Some [typeParam 13 ''Q'']) None]
      \<in> set (traverseType (SomeType ''array'' None
          [functionType [callSignature 12 (Some [typeParam 13 ''Q'']) None]]))"
    by (simp add: traverseType_functionType)
  show "callSignature 12 (Some [typeParam 13 ''Q'']) None
      \<in> set (inlineSignatures (functionType [callSignature 12 (Some [typeParam 13 ''Q'']) None]))"
    by (simp add: inlineSignatures_functionType)
qed

lemma registered_nest: "concat (map paramsOf (visits (nest n q))) = [q]"
  by (induction n) (simp_all add: visits_callSignature paramsOf_callSignature)

lemma registered_deepAlias: "registered (deepAlias n q) = [q]"
proof -
  have "visits (deepAlias n q) = deepAlias n q # visits (nest n q)"
    by (simp add: visits_unfold deepAlias_def traverseType_functionType
        inlineSignatures_functionType)
  moreover have "paramsOf (deepAlias n q) = []"
    by (simp add: paramsOf_def typeParams_def deepAlias_def)
  ultimately show ?thesis
    by (simp add: registered_def registered_nest)
qed

lemma nest_nested: "nestedSig (deepAlias n q) (nest 0 q)"
proof -
  have step: "inlineSig (callSignature i tps (Some (functionType [sg]))) sg" for i tps sg
    by (rule inlineSigI[where ref = "functionType [sg]" and t = "functionType [sg]"])
      (simp_all add: callSignature_def traverseType_functionType inlineSignatures_functionType)
  have top: "inlineSig (deepAlias n q) (nest n q)"
    by (rule inlineSigI[where ref = "functionType [nest n q]" and t = "functionType [nest n q]"])
      (simp_all add: deepAlias_def traverseType_functionType inlineSignatures_functionType)
  have chain: "inlineSig node (nest k q) \<Longrightarrow> nestedSig node (nest 0 q)" for node k
  proof (induction k arbitrary: node)
    case 0
    then show ?case by (rule nestedSig.direct)
  next
    case (Suc k)
    have "inlineSig (nest (Suc k) q) (nest k q)" by (simp add: step)
    then have "nestedSig (nest (Suc k) q) (nest 0 q)" by (rule Suc.IH)
    with Suc.prems show ?case by (rule nestedSig.deeper)
  qed
  from top show ?thesis by (rule chain)
qed

subsection \<open>The claims about the parent-type map\<close>

text \<open>
  C2. Let \<open>Q\<close> be a type parameter declared by a call signature that is nested, at any
  depth, in reflection type expressions reachable from the focal node's type. Provided
  that ids identify the parameters met on the walk (the data model's invariant that ids
  are unique in a tree), the map sends the id of \<open>Q\<close> to the tag computed from the
  focal node and \<open>Q\<close>. Moreover every entry of the map, whatever the ids, is the tag of
  the focal node and of some parameter met on the walk: no tag is computed from a
  nested signature.
\<close>

theorem nested_parameter_anchored_to_focal:
  assumes "nestedSig focal sg" and "typeParams sg = Some qs" and "Q \<in> set qs"
    and "inj_on id' (set (registered focal))"
  shows "buildParentTypesMap inlineTypeHash (Some focal) None None (id' Q) =
           Some (inlineTypeHash focal Q) \<and>
         (\<forall>k v. buildParentTypesMap inlineTypeHash (Some focal) None None k = Some v \<longrightarrow>
            (\<exists>p \<in> set (registered focal). k = id' p \<and> v = inlineTypeHash focal p))"
proof -
  from assms(1) have "sg = focal \<or> nestedSig focal sg" by simp
  then have "buildParentTypesMap inlineTypeHash (Some focal) None None (id' Q) =
      Some (inlineTypeHash focal Q)"
    using assms(2-4) by (rule registered_lookup)
  then show ?thesis by (simp add: entries_anchored)
qed

theorem nested_parameter_anchored_to_focal_witness:
  "nestedSig sampleAlias (callSignature 12 (Some [typeParam 13 ''Q'']) None) \<and>
   inj_on id' (set (registered sampleAlias)) \<and>
   buildParentTypesMap sampleHash (Some sampleAlias) None None 13 = Some ''Mapper/Q''"
proof -
  have i: "inj_on id' (set (registered sampleAlias))"
    by (simp add: registered_sampleAlias typeParam_def decl_def)
  have t: "typeParams (callSignature 12 (Some [typeParam 13 ''Q'']) None) = Some [typeParam 13 ''Q'']"
    by (simp add: typeParams_def callSignature_def)
  have q: "typeParam 13 ''Q'' \<in> set [typeParam 13 ''Q'']" by simp
  from nested_parameter_anchored_to_focal[OF nested_sampleAlias t q i, of sampleHash]
  have "buildParentTypesMap sampleHash (Some sampleAlias) None None (id' (typeParam 13 ''Q'')) =
      Some (sampleHash sampleAlias (typeParam 13 ''Q''))"
    by (rule conjunct1)
  then have "buildParentTypesMap sampleHash (Some sampleAlias) None None 13 = Some ''Mapper/Q''"
    by (simp add: sampleHash_def sampleAlias_def typeParam_def decl_def)
  with nested_sampleAlias i show ?thesis by simp
qed

subsection \<open>The builder on a bounded stack: the complete map or an overflow\<close>

lemma stack_error_one: "(e :: stack_error) = RangeError"
  by (cases e)

lemma fold_overflow:
  assumes "\<And>x. g x (Inl RangeError) = Inl RangeError"
  shows "fold g xs (Inl RangeError) = Inl RangeError"
  using assms by (induction xs) simp_all

lemma fold_overflow_or_done:
  assumes step: "\<And>x m. x \<in> set xs \<Longrightarrow>
      g x (Inr m) = Inl RangeError \<or> g x (Inr m) = Inr (f x m)"
    and err: "\<And>x. g x (Inl RangeError) = Inl RangeError"
  shows "fold g xs (Inr m) = Inl RangeError \<or> fold g xs (Inr m) = Inr (fold f xs m)"
  using step
proof (induction xs arbitrary: m)
  case Nil
  show ?case by simp
next
  case (Cons x xs)
  from Cons.prems[of x m] consider "g x (Inr m) = Inl RangeError" | "g x (Inr m) = Inr (f x m)"
    by auto
  then show ?case
  proof cases
    case 1
    then show ?thesis using fold_overflow[of g xs, OF err] by simp
  next
    case 2
    have "fold g xs (Inr (f x m)) = Inl RangeError \<or>
        fold g xs (Inr (f x m)) = Inr (fold f xs (f x m))"
      by (rule Cons.IH) (simp add: Cons.prems)
    with 2 show ?thesis by simp
  qed
qed

lemma buildParentTypesMapS_overflow_or_complete:
  "buildParentTypesMapS frames h r ta acc = Inl RangeError \<or>
   buildParentTypesMapS frames h r ta acc = Inr (buildParentTypesMap h r ta acc)"
proof (induction frames arbitrary: ta acc)
  case 0
  show ?case by simp
next
  case (Suc frames)
  define innerS where "innerS = (\<lambda>signature res'. case res' of
      Inl e \<Rightarrow> Inl e
    | Inr m' \<Rightarrow> buildParentTypesMapS frames h r (Some signature) (Some m'))"
  define inner where "inner = (\<lambda>signature m'. buildParentTypesMap h r (Some signature) (Some m'))"
  have innerS_err: "innerS x (Inl RangeError) = Inl RangeError" for x
    by (simp add: innerS_def)
  have innerS_step: "innerS x (Inr m) = Inl RangeError \<or> innerS x (Inr m) = Inr (inner x m)"
    for x m
    using Suc.IH[of "Some x" "Some m"] by (simp add: innerS_def inner_def)
  have outer_err: "fold innerS sigs (Inl RangeError) = Inl RangeError" for sigs
    by (rule fold_overflow) (rule innerS_err)
  have outer_step: "fold innerS sigs (Inr m) = Inl RangeError \<or>
      fold innerS sigs (Inr m) = Inr (fold inner sigs m)" for sigs m
    by (rule fold_overflow_or_done) (simp_all add: innerS_step innerS_err)
  have loops: "fold (\<lambda>ref res. fold innerS (inlineSignatures ref) res) refs (Inr m) = Inl RangeError \<or>
      fold (\<lambda>ref res. fold innerS (inlineSignatures ref) res) refs (Inr m) =
        Inr (fold (\<lambda>ref m. fold inner (inlineSignatures ref) m) refs m)" for refs m
    by (rule fold_overflow_or_done) (simp_all add: outer_step outer_err)
  have S: "buildParentTypesMapS (Suc frames) h r ta acc =
     (let type' = (case ta of None \<Rightarrow> r | Some s \<Rightarrow> Some s);
          map0 = (case acc of None \<Rightarrow> Map.empty | Some m \<Rightarrow> m);
          map1 = (case r of None \<Rightarrow> map0
                  | Some r' \<Rightarrow> (case type' of None \<Rightarrow> map0
                                | Some ty \<Rightarrow> registerParams h r' ty map0))
      in case type' of None \<Rightarrow> Inr map1
         | Some ty \<Rightarrow> (case type ty of None \<Rightarrow> Inr map1
             | Some t \<Rightarrow> fold (\<lambda>ref res. fold innerS (inlineSignatures ref) res)
                           (traverseType t) (Inr map1)))"
    unfolding innerS_def by (rule buildParentTypesMapS.simps(2))
  have T: "buildParentTypesMap h r ta acc =
     (let type' = (case ta of None \<Rightarrow> r | Some s \<Rightarrow> Some s);
          map0 = (case acc of None \<Rightarrow> Map.empty | Some m \<Rightarrow> m);
          map1 = (case r of None \<Rightarrow> map0
                  | Some r' \<Rightarrow> (case type' of None \<Rightarrow> map0
                                | Some ty \<Rightarrow> registerParams h r' ty map0))
      in case type' of None \<Rightarrow> map1
         | Some ty \<Rightarrow> (case type ty of None \<Rightarrow> map1
             | Some t \<Rightarrow> fold (\<lambda>ref m. fold inner (inlineSignatures ref) m)
                           (traverseType t) map1))"
    unfolding inner_def by (rule buildParentTypesMap.simps)
  show ?case
    unfolding S T Let_def using loops
    by (auto split: option.split)
qed

lemma buildParentTypesMapS_nest:
  "buildParentTypesMapS frames h (Some focal) (Some (nest n q)) (Some m) =
     (if n < frames then Inr (m(id' q \<mapsto> h focal q)) else Inl RangeError)"
proof (induction n arbitrary: frames m)
  case 0
  show ?case
    by (cases frames) (simp_all add: callSignature_def registerParams_def typeParams_def)
next
  case (Suc n)
  show ?case
  proof (cases frames)
    case 0
    then show ?thesis by simp
  next
    case (Suc k)
    have "buildParentTypesMapS (Suc k) h (Some focal) (Some (nest (Suc n) q)) (Some m) =
        buildParentTypesMapS k h (Some focal) (Some (nest n q)) (Some m)"
      by (simp add: callSignature_def registerParams_def typeParams_def
          traverseType_functionType inlineSignatures_functionType)
    with Suc Suc.IH[of k m] show ?thesis by simp
  qed
qed

lemma buildParentTypesMapS_deepAlias:
  "buildParentTypesMapS frames h (Some (deepAlias n q)) None None =
     (if n + 2 \<le> frames then Inr [id' q \<mapsto> h (deepAlias n q) q] else Inl RangeError)"
proof (cases frames)
  case 0
  then show ?thesis by simp
next
  case (Suc k)
  have "buildParentTypesMapS (Suc k) h (Some (deepAlias n q)) None None =
      buildParentTypesMapS k h (Some (deepAlias n q)) (Some (nest n q)) (Some Map.empty)"
    by (simp add: deepAlias_def registerParams_def typeParams_def
        traverseType_functionType inlineSignatures_functionType)
  with Suc show ?thesis
    by (simp add: buildParentTypesMapS_nest)
qed

text \<open>
  C3, as stated, fails: the builder has no depth cap and never hands back a partial map.
  With room on the stack, a parameter declared a hundred calls below the focal node,
  far beyond a cap of 64, is in the map returned; with room for fifty calls only, the
  same input overflows the stack and the call throws.
\<close>

theorem depth_cap_counterexample:
  "buildParentTypesMapS 1000 sampleHash (Some (deepAlias 99 (typeParam 7 ''Q''))) None None =
     Inr [7 \<mapsto> ''Deep/Q''] \<and>
   buildParentTypesMapS 50 sampleHash (Some (deepAlias 99 (typeParam 7 ''Q''))) None None =
     Inl RangeError"
  using buildParentTypesMapS_deepAlias[of 1000 sampleHash 99 "typeParam 7 ''Q''"]
    buildParentTypesMapS_deepAlias[of 50 sampleHash 99 "typeParam 7 ''Q''"]
  by (simp add: sampleHash_def deepAlias_def typeParam_def decl_def)

text \<open>
  C3, amended. Nothing caps the depth of the recursion. Whatever the input and the room
  on the call stack, a call either throws a \<^verbatim>\<open>RangeError\<close> (the stack overflows)
  or returns the complete map, the one an unbounded stack would give; it never returns a
  partial map. For a parameter declared at the end of a chain of \<open>n + 1\<close> nested
  signatures the call returns the map with that parameter registered exactly when the
  stack has room for the \<open>n + 2\<close> nested calls, and overflows otherwise.
\<close>

theorem no_depth_cap:
  "(buildParentTypesMapS frames inlineTypeHash refl' typeArg accMap = Inl RangeError \<or>
    buildParentTypesMapS frames inlineTypeHash refl' typeArg accMap =
      Inr (buildParentTypesMap inlineTypeHash refl' typeArg accMap)) \<and>
   buildParentTypesMapS frames inlineTypeHash (Some (deepAlias n q)) None None =
     (if n + 2 \<le> frames then Inr [id' q \<mapsto> inlineTypeHash (deepAlias n q) q]
      else Inl RangeError)"
  using buildParentTypesMapS_overflow_or_complete[of frames inlineTypeHash refl' typeArg accMap]
    buildParentTypesMapS_deepAlias[of frames inlineTypeHash n q]
  by simp

text \<open>
  C4. In the metadata the parameters of a node are stored under one of the two field
  names, never under both. Then, at every visit level (the focal node, or a signature
  nested in it at any depth), every parameter found under \<^verbatim>\<open>typeParameter\<close> or
  under \<^verbatim>\<open>typeParameters\<close> is registered: the map at that level gains the entry
  from its id to the tag of the focal node and the parameter, and, ids identifying the
  parameters met on the walk, the map returned holds that entry.
\<close>

theorem parameters_registered_at_every_level:
  assumes "node = focal \<or> nestedSig focal node"
    and "typeParameter node = None \<or> typeParameters node = None"
    and "typeParameter node = Some ps \<or> typeParameters node = Some ps"
    and "p \<in> set ps"
    and "inj_on id' (set (registered focal))"
  shows "registerParams inlineTypeHash focal node m (id' p) = Some (inlineTypeHash focal p) \<and>
         buildParentTypesMap inlineTypeHash (Some focal) None None (id' p) =
           Some (inlineTypeHash focal p)"
proof -
  from assms(2,3) have tp: "typeParams node = Some ps"
    by (auto simp: typeParams_def)
  have "q \<in> set (registered focal)" if "q \<in> set ps" for q
  proof -
    from that tp have "q \<in> set (paramsOf node)" by (simp add: paramsOf_def)
    with assms(1) show ?thesis unfolding registered_iff by blast
  qed
  then have "set ps \<subseteq> set (registered focal)" by blast
  with assms(5) have "inj_on id' (set ps)" by (rule inj_on_subset)
  then have "registerParams inlineTypeHash focal node m (id' p) = Some (inlineTypeHash focal p)"
    using assms(4) by (simp add: registerParams_def tp fold_upd_in)
  moreover have "buildParentTypesMap inlineTypeHash (Some focal) None None (id' p) =
      Some (inlineTypeHash focal p)"
    using assms(1) tp assms(4,5) by (rule registered_lookup)
  ultimately show ?thesis by simp
qed

text \<open>
  The two instances: the parameter \<open>T\<close> of the sample alias, stored under
  \<^verbatim>\<open>typeParameters\<close>, and the parameter \<open>Q\<close> of the signature nested in it,
  stored under \<^verbatim>\<open>typeParameter\<close>.
\<close>

theorem parameters_registered_at_every_level_witness:
  "typeParameter sampleAlias = None \<and> typeParameters sampleAlias = Some [typeParam 11 ''T''] \<and>
   nestedSig sampleAlias (callSignature 12 (Some [typeParam 13 ''Q'']) None) \<and>
   typeParameter (callSignature 12 (Some [typeParam 13 ''Q'']) None) = Some [typeParam 13 ''Q''] \<and>
   typeParameters (callSignature 12 (Some [typeParam 13 ''Q'']) None) = None \<and>
   inj_on id' (set (registered sampleAlias)) \<and>
   registerParams sampleHash sampleAlias sampleAlias Map.empty 11 = Some ''Mapper/T'' \<and>
   buildParentTypesMap sampleHash (Some sampleAlias) None None 11 = Some ''Mapper/T'' \<and>
   buildParentTypesMap sampleHash (Some sampleAlias) None None 13 = Some ''Mapper/Q''"
proof -
  have i: "inj_on id' (set (registered sampleAlias))"
    by (simp add: registered_sampleAlias typeParam_def decl_def)
  have f: "typeParameter sampleAlias = None \<and> typeParameters sampleAlias = Some [typeParam 11 ''T'']"
    by (simp add: sampleAlias_def)
  then have f1: "typeParameter sampleAlias = None \<or> typeParameters sampleAlias = None"
    and f2: "typeParameter sampleAlias = Some [typeParam 11 ''T''] \<or>
      typeParameters sampleAlias = Some [typeParam 11 ''T'']"
    by simp_all
  have n: "sampleAlias = sampleAlias \<or> nestedSig sampleAlias sampleAlias" by simp
  have p: "typeParam 11 ''T'' \<in> set [typeParam 11 ''T'']" by simp
  from parameters_registered_at_every_level[OF n f1 f2 p i, of sampleHash Map.empty]
  have t: "registerParams sampleHash sampleAlias sampleAlias Map.empty 11 = Some ''Mapper/T'' \<and>
      buildParentTypesMap sampleHash (Some sampleAlias) None None 11 = Some ''Mapper/T''"
    by (simp add: sampleHash_def sampleAlias_def typeParam_def decl_def)
  have g: "typeParameter (callSignature 12 (Some [typeParam 13 ''Q'']) None) =
        Some [typeParam 13 ''Q''] \<and>
      typeParameters (callSignature 12 (Some [typeParam 13 ''Q'']) None) = None"
    by (simp add: callSignature_def)
  then have g1: "typeParameter (callSignature 12 (Some [typeParam 13 ''Q'']) None) = None \<or>
      typeParameters (callSignature 12 (Some [typeParam 13 ''Q'']) None) = None"
    and g2: "typeParameter (callSignature 12 (Some [typeParam 13 ''Q'']) None) =
        Some [typeParam 13 ''Q''] \<or>
      typeParameters (callSignature 12 (Some [typeParam 13 ''Q'']) None) =
        Some [typeParam 13 ''Q'']"
    by simp_all
  have n': "callSignature 12 (Some [typeParam 13 ''Q'']) None = sampleAlias \<or>
      nestedSig sampleAlias (callSignature 12 (Some [typeParam 13 ''Q'']) None)"
    using nested_sampleAlias by simp
  have p': "typeParam 13 ''Q'' \<in> set [typeParam 13 ''Q'']" by simp
  from parameters_registered_at_every_level[OF n' g1 g2 p' i, of sampleHash Map.empty]
  have "buildParentTypesMap sampleHash (Some sampleAlias) None None 13 = Some ''Mapper/Q''"
    by (simp add: sampleHash_def sampleAlias_def typeParam_def decl_def)
  with f g i t nested_sampleAlias show ?thesis by simp
qed

text \<open>
  Outside that condition the first field name wins, an array being truthy even when
  empty: of a node with parameters under both names only those under
  \<^verbatim>\<open>typeParameter\<close> are registered, and an empty \<^verbatim>\<open>typeParameter\<close> array
  hides the parameters under \<^verbatim>\<open>typeParameters\<close>.
\<close>

lemma first_field_name_wins:
  "typeParameters bothFields = Some [typeParam 22 ''B''] \<and>
   buildParentTypesMap sampleHash (Some bothFields) None None (id' (typeParam 22 ''B'')) = None \<and>
   typeParameter emptyFirstField = Some [] \<and>
   typeParameters emptyFirstField = Some [typeParam 32 ''B''] \<and>
   buildParentTypesMap sampleHash (Some emptyFirstField) None None (id' (typeParam 32 ''B'')) = None"
proof -
  have "registered bothFields = [typeParam 21 ''A'']"
    by (simp add: registered_def visits_unfold paramsOf_def typeParams_def bothFields_def)
  moreover have "registered emptyFirstField = []"
    by (simp add: registered_def visits_unfold paramsOf_def typeParams_def emptyFirstField_def)
  ultimately show ?thesis
    by (simp add: buildParentTypesMap_registered bothFields_def emptyFirstField_def
        typeParam_def decl_def)
qed

text \<open>
  C9. With no focal node the builder returns the empty map. Nothing can fail on this
  path: neither \<^verbatim>\<open>inlineTypeHash\<close> nor \<^verbatim>\<open>traverseType\<close> is called.
\<close>

theorem absent_focal_gives_empty_map:
  "buildParentTypesMap inlineTypeHash None None None = Map.empty"
  by (subst buildParentTypesMap.simps) (simp add: Let_def)

section \<open>Properties of the search filter\<close>

lemma includes'_iff: "includes' s q \<longleftrightarrow> (\<exists>before after. s = before @ q @ after)"
proof (induction s)
  case Nil
  show ?case by auto
next
  case (Cons c s)
  show ?case
  proof
    assume "includes' (c # s) q"
    then consider "prefix q (c # s)" | "includes' s q" by auto
    then show "\<exists>before after. c # s = before @ q @ after"
    proof cases
      case 1
      then obtain after where "c # s = q @ after" by (auto simp: prefix_def)
      then have "c # s = [] @ q @ after" by simp
      then show ?thesis by blast
    next
      case 2
      with Cons.IH obtain before after where "s = before @ q @ after" by blast
      then have "c # s = (c # before) @ q @ after" by simp
      then show ?thesis by blast
    qed
  next
    assume "\<exists>before after. c # s = before @ q @ after"
    then obtain before after where e: "c # s = before @ q @ after" by blast
    show "includes' (c # s) q"
    proof (cases before)
      case Nil
      with e have "prefix q (c # s)" by (simp add: prefix_def)
      then show ?thesis by simp
    next
      case (Cons b before')
      with e have "s = before' @ q @ after" by simp
      with Cons.IH have "includes' s q" by blast
      then show ?thesis by simp
    qed
  qed
qed

lemma matchesQuery_code:
  "matchesQuery toLowerCase q item \<longleftrightarrow>
     includes' (toLowerCase (name (item_type item))) (toLowerCase q) \<or>
     (case summary item of None \<Rightarrow> False | Some s \<Rightarrow> includes' (toLowerCase s) (toLowerCase q)) \<or>
     (case description item of None \<Rightarrow> False | Some d \<Rightarrow> includes' (toLowerCase d) (toLowerCase q))"
  by (cases "summary item"; cases "description item")
    (simp_all add: matchesQuery_def containsIgnoringCase_def includes'_iff)

text \<open>
  C8. With the empty query the items come back unchanged. With any other query the result
  is the input with exactly the items kept whose name, summary (when present) or
  description (when present) contains the query, case ignored; the order of the input is
  kept.
\<close>

theorem filteredNav_spec:
  "filteredNav toLowerCase [] navItems = navItems \<and>
   (query \<noteq> [] \<longrightarrow>
      filteredNav toLowerCase query navItems = filter (matchesQuery toLowerCase query) navItems) \<and>
   subseq (filteredNav toLowerCase query navItems) navItems"
proof -
  have m: "matchesQuery toLowerCase query =
      (\<lambda>item. includes' (toLowerCase (name (item_type item))) (toLowerCase query) \<or>
         (case summary item of None \<Rightarrow> False
          | Some s \<Rightarrow> includes' (toLowerCase s) (toLowerCase query)) \<or>
         (case description item of None \<Rightarrow> False
          | Some d \<Rightarrow> includes' (toLowerCase d) (toLowerCase query)))"
    by (rule ext) (rule matchesQuery_code)
  have "filteredNav toLowerCase [] navItems = navItems"
    by (simp add: filteredNav_def)
  moreover have "query \<noteq> [] \<longrightarrow>
      filteredNav toLowerCase query navItems = filter (matchesQuery toLowerCase query) navItems"
    by (simp add: filteredNav_def m)
  moreover have "subseq (filteredNav toLowerCase query navItems) navItems"
    by (simp add: filteredNav_def)
  ultimately show ?thesis by blast
qed

lemma asciiLower_SPAN: "asciiLower ''SPAN'' = ''span''"
  by code_simp

theorem filteredNav_spec_witness:
  "''SPAN'' \<noteq> [] \<and>
   filteredNav asciiLower ''SPAN'' sampleItems =
     [\<lparr>item_type = decl 1 ''Interval'' ''Interface'' None,
       summary = Some ''A time span'', description = None\<rparr>] \<and>
   filter (matchesQuery asciiLower ''SPAN'') sampleItems =
     filteredNav asciiLower ''SPAN'' sampleItems"
proof -
  have e: "filteredNav asciiLower ''SPAN'' sampleItems =
     [\<lparr>item_type = decl 1 ''Interval'' ''Interface'' None,
       summary = Some ''A time span'', description = None\<rparr>]"
    by code_simp
  from filteredNav_spec[of asciiLower sampleItems "''SPAN''"] e show ?thesis by simp
qed

section \<open>Properties of the usage tab selector\<close>

lemma source_mounted:
  "source (mountEffect (initial ls)) =
     (case ls LOCALSTORAGE_KEY of
        None \<Rightarrow> DEFAULT_SOURCE
      | Some s \<Rightarrow> if s \<noteq> [] then s else DEFAULT_SOURCE)"
  by (simp add: mountEffect_def initial_def split: option.split)

lemma storage_mounted:
  "storage (mountEffect (initial ls)) =
     (case ls LOCALSTORAGE_KEY of
        None \<Rightarrow> ls(LOCALSTORAGE_KEY \<mapsto> DEFAULT_SOURCE)
      | Some s \<Rightarrow> if s \<noteq> [] then ls else ls(LOCALSTORAGE_KEY \<mapsto> DEFAULT_SOURCE))"
  by (simp add: mountEffect_def initial_def split: option.split)

text \<open>
  C5, as stated, fails: the fallback is the first tab of the current type, not
  \<^verbatim>\<open>"commonjs"\<close>. With the stored tab \<^verbatim>\<open>"umd"\<close> and the tabs
  \<^verbatim>\<open>["esm", "commonjs"]\<close> the selector shows \<^verbatim>\<open>"esm"\<close>.
\<close>

theorem default_fallback_counterexample:
  "''umd'' \<notin> set [''esm'', ''commonjs''] \<and>
   displayed [''esm'', ''commonjs''] [LOCALSTORAGE_KEY \<mapsto> ''umd''] = Some ''esm''"
  by (simp add: displayed_def source_mounted selectedTab_def)

text \<open>
  C5, amended. When the stored tab is not among the tabs of the current type, the
  selector shows the first of them (nothing when there is none). When nothing is stored
  (or the empty string is), it shows \<^verbatim>\<open>"commonjs"\<close> if that is one of the tabs and
  the first tab otherwise.
\<close>

theorem displayed_fallback:
  "(ls LOCALSTORAGE_KEY = Some s \<and> s \<noteq> [] \<and> s \<notin> set usageTabs \<longrightarrow>
      displayed usageTabs ls = (case usageTabs of [] \<Rightarrow> None | t # _ \<Rightarrow> Some t)) \<and>
   (ls LOCALSTORAGE_KEY = None \<or> ls LOCALSTORAGE_KEY = Some [] \<longrightarrow>
      displayed usageTabs ls =
        (if DEFAULT_SOURCE \<in> set usageTabs then Some DEFAULT_SOURCE
         else (case usageTabs of [] \<Rightarrow> None | t # _ \<Rightarrow> Some t)))"
  by (auto simp: displayed_def source_mounted selectedTab_def)

theorem displayed_fallback_witness:
  "[LOCALSTORAGE_KEY \<mapsto> ''umd''] LOCALSTORAGE_KEY = Some ''umd'' \<and> ''umd'' \<noteq> [] \<and>
   ''umd'' \<notin> set [''esm'', ''commonjs''] \<and>
   displayed [''esm'', ''commonjs''] [LOCALSTORAGE_KEY \<mapsto> ''umd''] = Some ''esm'' \<and>
   (Map.empty :: localStorage) LOCALSTORAGE_KEY = None \<and>
   displayed [''esm'', ''commonjs''] Map.empty = Some ''commonjs'' \<and>
   displayed [''esm'', ''umd''] Map.empty = Some ''esm''"
  using displayed_fallback[of "[LOCALSTORAGE_KEY \<mapsto> ''umd'']" "''umd''" "[''esm'', ''commonjs'']"]
    displayed_fallback[of Map.empty "''x''" "[''esm'', ''commonjs'']"]
    displayed_fallback[of Map.empty "''x''" "[''esm'', ''umd'']"]
  by (simp add: DEFAULT_SOURCE_def)

text \<open>
  C6. When the stored preference is not among the tabs of the current type, the selector
  shows the first tab of the current type, and mounting the component leaves the store as
  it was. A stored preference is a non-empty string: the guard
  \<^verbatim>\<open>if (localStorageSource)\<close> takes the empty string for no preference and runs
  the initialisation of the first activation. Apart from that initialisation only the
  click handler writes the store; a render returns no store at all.
\<close>

theorem stale_preference_kept:
  assumes "ls LOCALSTORAGE_KEY = Some p" and "p \<noteq> []" and "p \<notin> set usageTabs"
  shows "displayed usageTabs ls = (case usageTabs of [] \<Rightarrow> None | t # _ \<Rightarrow> Some t) \<and>
         storage (mountEffect (initial ls)) = ls"
  using assms by (simp add: displayed_def source_mounted storage_mounted selectedTab_def)

theorem stale_preference_kept_witness:
  "[LOCALSTORAGE_KEY \<mapsto> ''esm''] LOCALSTORAGE_KEY = Some ''esm'' \<and> ''esm'' \<noteq> [] \<and>
   ''esm'' \<notin> set [''commonjs''] \<and>
   displayed [''commonjs''] [LOCALSTORAGE_KEY \<mapsto> ''esm''] = Some ''commonjs'' \<and>
   storage (mountEffect (initial [LOCALSTORAGE_KEY \<mapsto> ''esm''])) LOCALSTORAGE_KEY = Some ''esm''"
proof -
  have a: "[LOCALSTORAGE_KEY \<mapsto> ''esm''] LOCALSTORAGE_KEY = Some ''esm''" by simp
  have b: "''esm'' \<noteq> []" by simp
  have c: "''esm'' \<notin> set [''commonjs'']" by simp
  from stale_preference_kept[of "[LOCALSTORAGE_KEY \<mapsto> ''esm'']" "''esm''" "[''commonjs'']", OF a b c]
    a b c show ?thesis by simp
qed

text \<open>
  C7 does not hold of the code. The tab list skips a tab that has no entry in
  \<^verbatim>\<open>usage\<close>, but the content below reads \<^verbatim>\<open>selectedUsage.code\<close> unguarded:
  with the stored tab \<^verbatim>\<open>"esm"\<close> among the tabs and no entry for it, the render throws.
\<close>

theorem render_missing_usage_throws:
  "render [''commonjs'', ''esm'']
     [''commonjs'' \<mapsto> \<lparr>title = ''CommonJS'', code = ''require'', text_of = None\<rparr>]
     (source (mountEffect (initial [LOCALSTORAGE_KEY \<mapsto> ''esm'']))) = Inl TypeError"
  by (simp add: render_def selectedTab_def selectedUsage_def source_mounted)

end
